theory Spec2Isabelle
  imports Complex_Main "HOL-Library.Word" "HOL-Library.Signed_Division" "HOL-Library.Log_Nat"
begin

unbundle bit_operations_syntax

chapter \<open>The BER simulation core: model\<close>

text \<open>
  Conventions of the embedding.
  \<^item> In \<open>coding.cpp\<close> a \<open>double\<close> is a binary64 value (type \<open>double\<close> below): a real, an
    infinity or NaN, with every sum rounded to nearest, ties to even, and overflow to infinity.
  \<^item> In \<open>ber.cpp\<close> a \<open>double\<close> is a \<open>real\<close>: the arithmetic of the modulator, the channel
    and the LLR generator is exact in the model. The LLRs it hands to the decoder are rounded to
    binary64 at the call.
  \<^item> A \<open>uint8_t\<close> is a \<open>nat\<close>, truncated with \<open>uint8\<close> wherever the source stores into one.
  \<^item> An \<open>int\<close> or \<open>long long\<close> is an \<open>int\<close>; where the source's arithmetic can leave the
    32-bit range the result goes through \<open>int32\<close> (two's-complement wrap-around, which is what
    the narrowing conversion does and what the usual targets do on signed overflow).
  \<^item> A pointer to a buffer is a function from offsets to values, \<open>None\<close> for the null pointer;
    a call returns the buffer it leaves behind.
  \<^item> Loops are folds over the index range in the source's order.
\<close>

section \<open>coding.cpp: trellis tables\<close>

definition G1 :: nat where
  "G1 = 91" \<comment> \<open>0b1011011, 133 octal\<close>

definition G2 :: nat where
  "G2 = 121" \<comment> \<open>0b1111001, 171 octal\<close>

definition CONSTRAINT_LENGTH :: nat where
  "CONSTRAINT_LENGTH = 7"

definition NUM_STATES :: nat where
  "NUM_STATES = push_bit (CONSTRAINT_LENGTH - 1) 1"

definition CODE_RATE_DEN :: int where
  "CODE_RATE_DEN = 2"

definition uint8 :: "nat \<Rightarrow> nat" where
  "uint8 x = take_bit 8 x"

definition int32 :: "int \<Rightarrow> int" where
  "int32 x = signed_take_bit 31 x"

text \<open>\<open>__builtin_popcount\<close>: the number of one bits.\<close>

fun popcount :: "nat \<Rightarrow> nat" where
  "popcount n = (if n = 0 then 0 else n mod 2 + popcount (n div 2))"

declare popcount.simps [simp del]

definition convolve :: "nat \<Rightarrow> nat \<Rightarrow> nat" where
  "convolve data gen = uint8 (popcount (data AND gen) AND 1)"

text \<open>
  One row of \<open>state_table\<close>: the two-element arrays \<open>next_state\<close> and \<open>output\<close> (here
  \<open>output_bits\<close>). The arrays \<open>prev_state\<close> and \<open>prev_input\<close> of the source are filled by
  \<open>init_conv_state_table\<close> but read by neither the encoder nor the decoder; they are left out.
\<close>

record ConvState =
  next_state :: "nat list"
  output_bits :: "nat list"

text \<open>The body of the first loop nest of \<open>init_conv_state_table\<close> for one state and input.\<close>

definition conv_entry :: "nat \<Rightarrow> nat \<Rightarrow> nat \<times> nat" where
  "conv_entry st input =
     (let shift_reg = uint8 (push_bit (CONSTRAINT_LENGTH - 1) input OR st);
          out1 = convolve shift_reg G1;
          out2 = convolve shift_reg G2;
          outp = uint8 (push_bit 1 out1 OR out2);
          nxt = uint8 (drop_bit 1 shift_reg)
      in (nxt, outp))"

text \<open>
  The table after \<open>init_conv_state_table\<close>. The initialisation is idempotent and every entry
  point calls it before reading, so the table is a constant of the model.
\<close>

definition state_table :: "ConvState list" where
  "state_table =
     map (\<lambda>st. \<lparr> next_state = map (\<lambda>input. fst (conv_entry st input)) [0..<2],
                  output_bits = map (\<lambda>input. snd (conv_entry st input)) [0..<2] \<rparr>)
         [0..<NUM_STATES]"

section \<open>coding.cpp: convolutional encoder\<close>

text \<open>What a call through the C interface leaves behind: the return value and the two
  out-parameters (the bit buffer and the length cell).\<close>

record call_result =
  status :: int
  out_bits :: "(nat \<Rightarrow> bool) option"
  out_len :: "int option"

record enc_state =
  enc_st :: nat
  enc_idx :: nat
  enc_mem :: "nat \<Rightarrow> bool"

text \<open>The common body of the two encoder loops.\<close>

definition encode_step :: "nat \<Rightarrow> enc_state \<Rightarrow> enc_state" where
  "encode_step input s =
     (let outp = output_bits (state_table ! enc_st s) ! input;
          m1 = (enc_mem s)(enc_idx s := (drop_bit 1 outp AND 1 \<noteq> 0));
          m2 = m1(enc_idx s + 1 := (outp AND 1 \<noteq> 0))
      in \<lparr> enc_st = next_state (state_table ! enc_st s) ! input,
           enc_idx = enc_idx s + 2,
           enc_mem = m2 \<rparr>)"

definition encode_run :: "(nat \<Rightarrow> bool) \<Rightarrow> nat \<Rightarrow> (nat \<Rightarrow> bool) \<Rightarrow> enc_state" where
  "encode_run info_bits info_len coded_bits =
     (let s0 = \<lparr> enc_st = 0, enc_idx = 0, enc_mem = coded_bits \<rparr>;
          s1 = fold (\<lambda>i. encode_step (if info_bits i then 1 else 0)) [0..<info_len] s0
      in fold (\<lambda>i. encode_step 0) [0..<CONSTRAINT_LENGTH - 1] s1)"

definition convolutional_encode ::
  "(nat \<Rightarrow> bool) option \<Rightarrow> int \<Rightarrow> (nat \<Rightarrow> bool) option \<Rightarrow> int option \<Rightarrow> call_result" where
  "convolutional_encode info_bits info_len coded_bits coded_len =
     (if info_bits = None \<or> coded_bits = None \<or> coded_len = None \<or> info_len \<le> 0
      then \<lparr> status = -1, out_bits = coded_bits, out_len = coded_len \<rparr>
      else
        let total_info_bits = int32 (info_len + int (CONSTRAINT_LENGTH - 1));
            new_len = int32 (total_info_bits * CODE_RATE_DEN);
            s = encode_run (the info_bits) (nat info_len) (the coded_bits)
        in \<lparr> status = 0, out_bits = Some (enc_mem s), out_len = Some new_len \<rparr>)"

section \<open>coding.cpp: the decoder's floating-point arithmetic\<close>

text \<open>
  The decoder adds, subtracts and compares \<open>double\<close>s. A binary64 value is a real number, an
  infinity or NaN. The two zeros are one value here: sums, differences and comparisons, which
  is all the decoder does, do not tell them apart.
\<close>

datatype double = Num real | PosInf | NegInf | NaN

text \<open>Rounding to an integer, ties to the even neighbour.\<close>

definition round_half_even :: "real \<Rightarrow> int" where
  "round_half_even x =
     (let f = \<lfloor>x\<rfloor>; d = x - of_int f
      in if d < 1 / 2 then f else if 1 / 2 < d then f + 1 else if even f then f else f + 1)"

text \<open>
  The finite binary64 values are the \<open>m * 2^e\<close> with \<open>|m| < 2^53\<close> and
  \<open>-1074 \<le> e \<le> 971\<close>. \<open>binary64_exponent x\<close> is the exponent of the grid on which \<open>x\<close> is
  rounded: the least \<open>e\<close> of the range with \<open>|x| < 2^(e + 53)\<close>, none from \<open>2^1024\<close> on.
  \<open>binary64_round\<close> is round-to-nearest, ties to even, with overflow to infinity.
\<close>

definition binary64_emin :: int where
  "binary64_emin = - 1074"

definition binary64_emax :: int where
  "binary64_emax = 971"

definition binary64_exponent :: "real \<Rightarrow> int option" where
  "binary64_exponent x = find (\<lambda>e. \<bar>x\<bar> < 2 powi (e + 53)) [binary64_emin..binary64_emax]"

definition binary64_round :: "real \<Rightarrow> double" where
  "binary64_round x =
     (case binary64_exponent x of
        None \<Rightarrow> if 0 < x then PosInf else NegInf
      | Some e \<Rightarrow>
          let y = of_int (round_half_even (x / 2 powi e)) * 2 powi e
          in if 2 ^ 1024 \<le> \<bar>y\<bar> then (if 0 < x then PosInf else NegInf) else Num y)"

definition dneg :: "double \<Rightarrow> double" where
  "dneg x = (case x of Num a \<Rightarrow> Num (- a) | PosInf \<Rightarrow> NegInf | NegInf \<Rightarrow> PosInf | NaN \<Rightarrow> NaN)"

definition dadd :: "double \<Rightarrow> double \<Rightarrow> double" where
  "dadd x y =
     (case (x, y) of
        (NaN, _) \<Rightarrow> NaN
      | (_, NaN) \<Rightarrow> NaN
      | (Num a, Num b) \<Rightarrow> binary64_round (a + b)
      | (PosInf, NegInf) \<Rightarrow> NaN
      | (NegInf, PosInf) \<Rightarrow> NaN
      | (PosInf, _) \<Rightarrow> PosInf
      | (_, PosInf) \<Rightarrow> PosInf
      | (NegInf, _) \<Rightarrow> NegInf
      | (_, NegInf) \<Rightarrow> NegInf)"

definition dsub :: "double \<Rightarrow> double \<Rightarrow> double" where
  "dsub x y = dadd x (dneg y)"

text \<open>The comparisons \<open>x > y\<close> and \<open>x == y\<close>; both are false when an operand is NaN.\<close>

definition dgt :: "double \<Rightarrow> double \<Rightarrow> bool" where
  "dgt x y =
     (case (x, y) of
        (NaN, _) \<Rightarrow> False
      | (_, NaN) \<Rightarrow> False
      | (Num a, Num b) \<Rightarrow> b < a
      | (Num a, PosInf) \<Rightarrow> False
      | (Num a, NegInf) \<Rightarrow> True
      | (PosInf, PosInf) \<Rightarrow> False
      | (PosInf, _) \<Rightarrow> True
      | (NegInf, _) \<Rightarrow> False)"

definition deq :: "double \<Rightarrow> double \<Rightarrow> bool" where
  "deq x y \<longleftrightarrow> x \<noteq> NaN \<and> x = y"


section \<open>coding.cpp: Viterbi decoder\<close>

text \<open>\<open>constexpr double NEG_INF = -1e30\<close>: the literal is rounded, then negated.\<close>

definition NEG_INF :: double where
  "NEG_INF = dneg (binary64_round (10 ^ 30))"

record vit_grid =
  path_metrics :: "double list list"
  path_history :: "nat list list"

definition branch_metric :: "nat \<Rightarrow> double \<Rightarrow> double \<Rightarrow> double" where
  "branch_metric outp llr0 llr1 =
     (let b0 = Num 0;
          b1 = (if drop_bit 1 outp AND 1 \<noteq> 0 then dadd b0 llr0 else dsub b0 llr0);
          b2 = (if outp AND 1 \<noteq> 0 then dadd b1 llr1 else dsub b1 llr1)
      in b2)"

text \<open>Add-compare-select for one (state, input) pair at one stage.\<close>

definition acs :: "nat \<Rightarrow> double \<Rightarrow> double \<Rightarrow> nat \<Rightarrow> nat \<Rightarrow> vit_grid \<Rightarrow> vit_grid" where
  "acs stage llr0 llr1 st input g =
     (let nxt = next_state (state_table ! st) ! input;
          outp = output_bits (state_table ! st) ! input;
          new_metric = dadd (path_metrics g ! stage ! st) (branch_metric outp llr0 llr1)
      in if dgt new_metric (path_metrics g ! (stage + 1) ! nxt)
         then g \<lparr> path_metrics :=
                    (path_metrics g)[stage + 1 := (path_metrics g ! (stage + 1))[nxt := new_metric]],
                  path_history :=
                    (path_history g)[stage + 1 :=
                       (path_history g ! (stage + 1))[nxt := uint8 (push_bit 1 st OR input)]] \<rparr>
         else g)"

definition state_body :: "nat \<Rightarrow> double \<Rightarrow> double \<Rightarrow> nat \<Rightarrow> vit_grid \<Rightarrow> vit_grid" where
  "state_body stage llr0 llr1 st g =
     (if deq (path_metrics g ! stage ! st) NEG_INF then g
      else fold (acs stage llr0 llr1 st) [0..<2] g)"

definition forward_stage :: "(nat \<Rightarrow> double) \<Rightarrow> nat \<Rightarrow> vit_grid \<Rightarrow> vit_grid" where
  "forward_stage received_llr stage g =
     (let llr0 = received_llr (2 * stage);
          llr1 = received_llr (2 * stage + 1)
      in fold (state_body stage llr0 llr1) [0..<NUM_STATES] g)"

definition forward_pass :: "(nat \<Rightarrow> double) \<Rightarrow> nat \<Rightarrow> vit_grid \<Rightarrow> vit_grid" where
  "forward_pass received_llr num_stages g = fold (forward_stage received_llr) [0..<num_stages] g"

text \<open>The traceback loop runs \<open>stage\<close> from \<open>num_stages\<close> down to 1; its state is the current
  trellis state and the output buffer.\<close>

definition traceback_step ::
  "nat list list \<Rightarrow> int \<Rightarrow> nat \<Rightarrow> nat \<times> (nat \<Rightarrow> bool) \<Rightarrow> nat \<times> (nat \<Rightarrow> bool)" where
  "traceback_step hist info_len stage cs =
     (let history = hist ! stage ! fst cs;
          prev_state = uint8 (drop_bit 1 history);
          input = uint8 (history AND 1);
          mem = (if int stage \<le> info_len then (snd cs)(stage - 1 := (input = 1)) else snd cs)
      in (prev_state, mem))"

definition traceback ::
  "nat list list \<Rightarrow> nat \<Rightarrow> int \<Rightarrow> (nat \<Rightarrow> bool) \<Rightarrow> nat \<times> (nat \<Rightarrow> bool)" where
  "traceback hist num_stages info_len decoded_bits =
     fold (traceback_step hist info_len) (rev [1..<num_stages + 1]) (0, decoded_bits)"

definition init_grid :: "nat \<Rightarrow> vit_grid" where
  "init_grid num_stages =
     (let pm = replicate (num_stages + 1) (replicate NUM_STATES NEG_INF);
          ph = replicate (num_stages + 1) (replicate NUM_STATES 0)
      in \<lparr> path_metrics = pm[0 := (pm ! 0)[0 := Num 0]], path_history = ph \<rparr>)"

definition viterbi_decode ::
  "(nat \<Rightarrow> double) option \<Rightarrow> int \<Rightarrow> (nat \<Rightarrow> bool) option \<Rightarrow> int option \<Rightarrow> call_result" where
  "viterbi_decode received_llr received_len decoded_bits decoded_len =
     (if received_llr = None \<or> decoded_bits = None \<or> decoded_len = None \<or> received_len \<le> 0
      then \<lparr> status = -1, out_bits = decoded_bits, out_len = decoded_len \<rparr>
      else if received_len smod 2 \<noteq> 0
      then \<lparr> status = -2, out_bits = decoded_bits, out_len = decoded_len \<rparr>
      else
        let num_stages = received_len sdiv 2;
            info_len = num_stages - int (CONSTRAINT_LENGTH - 1)
        in if info_len \<le> 0
           then \<lparr> status = -3, out_bits = decoded_bits, out_len = decoded_len \<rparr>
           else
             let g = forward_pass (the received_llr) (nat num_stages) (init_grid (nat num_stages));
                 tb = traceback (path_history g) (nat num_stages) info_len (the decoded_bits)
             in \<lparr> status = 0, out_bits = Some (snd tb), out_len = Some info_len \<rparr>)"

section \<open>Reference semantics of the trellis\<close>

text \<open>
  Specification-level readings of the table, used to state what the encoder emits: the
  transition and the pair of output bits of a (state, input) pair, the coded stream of an input
  sequence from a given state, and the state reached.
\<close>

definition step_state :: "nat \<Rightarrow> nat \<Rightarrow> nat" where
  "step_state st input = next_state (state_table ! st) ! input"

definition out_pair :: "nat \<Rightarrow> nat \<Rightarrow> bool \<times> bool" where
  "out_pair st input =
     (let outp = output_bits (state_table ! st) ! input
      in (drop_bit 1 outp AND 1 \<noteq> 0, outp AND 1 \<noteq> 0))"

fun coded_stream :: "nat \<Rightarrow> bool list \<Rightarrow> bool list" where
  "coded_stream q [] = []"
| "coded_stream q (u # us) =
     fst (out_pair q (if u then 1 else 0)) # snd (out_pair q (if u then 1 else 0))
       # coded_stream (step_state q (if u then 1 else 0)) us"

fun run_state :: "nat \<Rightarrow> bool list \<Rightarrow> nat" where
  "run_state q [] = q"
| "run_state q (u # us) = run_state (step_state q (if u then 1 else 0)) us"

definition tail_bits :: "bool list" where
  "tail_bits = replicate (CONSTRAINT_LENGTH - 1) False"


section \<open>The noiseless channel of the tests\<close>

text \<open>
  \<open>test_convolutional_coding\<close> and the tests of \<open>test_coding.cpp\<close> turn coded bit \<open>b\<close> into
  the LLR \<open>b ? 10.0 : -10.0\<close>; \<open>ideal_llr\<close> is that map with the constant as a parameter.
  \<open>zero_bits\<close> is an all-zero buffer for concrete instances.
\<close>

definition ideal_llr :: "double \<Rightarrow> (nat \<Rightarrow> bool) \<Rightarrow> nat \<Rightarrow> double" where
  "ideal_llr C coded_bits i = (if coded_bits i then C else dneg C)"

definition zero_bits :: "nat \<Rightarrow> bool" where
  "zero_bits i = False"




section \<open>Cell-level view of the decoder grids\<close>

text \<open>
  Notions used to state and prove properties of the forward pass: a well-formed grid of
  \<open>N + 1\<close> rows of 64 cells, the metric and history of a cell, the candidate metric that
  add-compare-select computes for a (state, input) pair, and the effect of one compare-select
  on a cell. \<open>true_state us t\<close> is the encoder's state after \<open>t\<close> inputs of \<open>us\<close>.
\<close>

definition wf_grid :: "nat \<Rightarrow> vit_grid \<Rightarrow> bool" where
  "wf_grid N g \<longleftrightarrow>
     length (path_metrics g) = N + 1 \<and> length (path_history g) = N + 1 \<and>
     (\<forall>t \<le> N. length (path_metrics g ! t) = 64 \<and> length (path_history g ! t) = 64)"

definition metric_at :: "vit_grid \<Rightarrow> nat \<Rightarrow> nat \<Rightarrow> double" where
  "metric_at g t q = path_metrics g ! t ! q"

definition history_at :: "vit_grid \<Rightarrow> nat \<Rightarrow> nat \<Rightarrow> nat" where
  "history_at g t q = path_history g ! t ! q"

definition candidate :: "vit_grid \<Rightarrow> nat \<Rightarrow> double \<Rightarrow> double \<Rightarrow> nat \<Rightarrow> nat \<Rightarrow> double" where
  "candidate g stage llr0 llr1 st input =
     dadd (path_metrics g ! stage ! st) (branch_metric (output_bits (state_table ! st) ! input) llr0 llr1)"

definition cell :: "vit_grid \<Rightarrow> nat \<Rightarrow> nat \<Rightarrow> double \<times> nat" where
  "cell g t q = (metric_at g t q, history_at g t q)"

definition acs_cell :: "bool \<Rightarrow> double \<Rightarrow> nat \<Rightarrow> double \<times> nat \<Rightarrow> double \<times> nat" where
  "acs_cell active c code mh = (if active \<and> dgt c (fst mh) then (c, code) else mh)"


text \<open>
  Two concrete two-row grids: in both every state of row 0 has metric 0; row 1 is fresh in
  \<open>fresh_grid\<close> and already holds metric 0 everywhere in \<open>level_grid\<close>.
\<close>

definition fresh_grid :: vit_grid where
  "fresh_grid = \<lparr> path_metrics = [replicate 64 (Num 0), replicate 64 NEG_INF],
                   path_history = [replicate 64 0, replicate 64 0] \<rparr>"

definition level_grid :: vit_grid where
  "level_grid = \<lparr> path_metrics = [replicate 64 (Num 0), replicate 64 (Num 0)],
                   path_history = [replicate 64 0, replicate 64 0] \<rparr>"








section \<open>ber.cpp: constellations\<close>

type_synonym cdouble = complex

definition M_SQRT2_INV :: real where
  "M_SQRT2_INV = 0.7071067811865476"

definition M_SQRT10_INV :: real where
  "M_SQRT10_INV = 0.31622776601683794"

definition scale_qpsk :: real where
  "scale_qpsk = M_SQRT2_INV"

definition scale_16qam :: real where
  "scale_16qam = M_SQRT10_INV"

text \<open>\<open>complex<double>\<close> times and divided by a \<open>double\<close>: componentwise.\<close>

definition cmul :: "cdouble \<Rightarrow> real \<Rightarrow> cdouble" where
  "cmul z r = Complex (Re z * r) (Im z * r)"

definition cdiv :: "cdouble \<Rightarrow> real \<Rightarrow> cdouble" where
  "cdiv z r = Complex (Re z / r) (Im z / r)"

definition qam_levels :: "real list" where
  "qam_levels = [3, 1, -3, -1]"

definition get_level :: "bool \<Rightarrow> bool \<Rightarrow> real" where
  "get_level msb lsb = qam_levels ! (push_bit 1 (if msb then 1 else 0) OR (if lsb then 1 else 0))"

definition demod_level :: "real \<Rightarrow> real" where
  "demod_level val = (if val > 2 then 3 else if val > 0 then 1 else if val > - 2 then - 1 else - 3)"

definition valid_mod_orders :: "int list" where
  "valid_mod_orders = [2, 4, 16]"

definition is_valid_mod_order :: "int \<Rightarrow> bool" where
  "is_valid_mod_order mod_order \<longleftrightarrow> mod_order \<in> set valid_mod_orders"

text \<open>
  \<open>static_cast<int>(log2(mod_order))\<close>. For \<open>mod_order \<ge> 1\<close> this is the floor of the binary
  logarithm; for \<open>mod_order \<le> 0\<close> the conversion is undefined in C++ and the model gives 0.
\<close>

definition bits_per_sym_of :: "int \<Rightarrow> nat" where
  "bits_per_sym_of mod_order = floorlog 2 (nat mod_order) - 1"

text \<open>\<open>static_cast<int>\<close> of a \<open>double\<close>: truncation towards zero.\<close>

definition trunc_int :: "real \<Rightarrow> int" where
  "trunc_int x = (if 0 \<le> x then \<lfloor>x\<rfloor> else \<lceil>x\<rceil>)"

definition level_to_bits :: "real \<Rightarrow> bool \<times> bool" where
  "level_to_bits level =
     (let k = trunc_int level
      in if k = 3 then (False, False)
         else if k = 1 then (False, True)
         else if k = - 1 then (True, True)
         else (True, False))"

section \<open>ber.cpp: modulator\<close>

function mod2_loop :: "bool list \<Rightarrow> nat \<Rightarrow> nat \<Rightarrow> cdouble list \<Rightarrow> cdouble list" where
  "mod2_loop bits num_sym i symbols =
     (if i < num_sym
      then mod2_loop bits num_sym (i + 1)
             (symbols[i := (if bits ! i then Complex (- 1) 0 else Complex 1 0)])
      else symbols)"
  by pat_completeness auto
termination
  by (relation "measure (\<lambda>(bits, num_sym, i, symbols). num_sym - i)") auto

function mod4_loop :: "bool list \<Rightarrow> nat \<Rightarrow> nat \<Rightarrow> cdouble list \<Rightarrow> cdouble list" where
  "mod4_loop bits num_sym i symbols =
     (if i < num_sym
      then (if 2 * i + 1 \<ge> length bits then symbols
            else
              let re = (if bits ! (2 * i) then - 1 else 1);
                  im = (if bits ! (2 * i + 1) then - 1 else 1)
              in mod4_loop bits num_sym (i + 1) (symbols[i := cmul (Complex re im) scale_qpsk]))
      else symbols)"
  by pat_completeness auto
termination
  by (relation "measure (\<lambda>(bits, num_sym, i, symbols). num_sym - i)") auto

function mod16_loop :: "bool list \<Rightarrow> nat \<Rightarrow> nat \<Rightarrow> cdouble list \<Rightarrow> cdouble list" where
  "mod16_loop bits num_sym i symbols =
     (if i < num_sym
      then (if 4 * i + 3 \<ge> length bits then symbols
            else
              let re = get_level (bits ! (4 * i)) (bits ! (4 * i + 2));
                  im = get_level (bits ! (4 * i + 1)) (bits ! (4 * i + 3))
              in mod16_loop bits num_sym (i + 1) (symbols[i := cmul (Complex re im) scale_16qam]))
      else symbols)"
  by pat_completeness auto
termination
  by (relation "measure (\<lambda>(bits, num_sym, i, symbols). num_sym - i)") auto

declare mod2_loop.simps [simp del] mod4_loop.simps [simp del] mod16_loop.simps [simp del]

text \<open>
  \<open>modulate_impl\<close>. \<open>vector<cdouble> symbols(num_sym)\<close> is zero-initialised. The function is
  reached only through \<open>try_modulate\<close>, hence with a valid order and \<open>bits_per_sym \<ge> 1\<close>.
\<close>

definition modulate_impl :: "bool list \<Rightarrow> int \<Rightarrow> cdouble list" where
  "modulate_impl bits mod_order =
     (let bits_per_sym = bits_per_sym_of mod_order;
          num_sym = length bits div bits_per_sym;
          symbols = replicate num_sym 0
      in if num_sym = 0 then symbols
         else if mod_order = 2 then mod2_loop bits num_sym 0 symbols
         else if mod_order = 4 then mod4_loop bits num_sym 0 symbols
         else if mod_order = 16 then mod16_loop bits num_sym 0 symbols
         else symbols)"

definition try_modulate :: "bool list \<Rightarrow> int \<Rightarrow> cdouble list option" where
  "try_modulate bits mod_order =
     (if \<not> is_valid_mod_order mod_order then None
      else if length bits < bits_per_sym_of mod_order then None
      else Some (modulate_impl bits mod_order))"

definition modulate :: "bool list \<Rightarrow> int \<Rightarrow> cdouble list" where
  "modulate bits mod_order = (case try_modulate bits mod_order of Some r \<Rightarrow> r | None \<Rightarrow> [])"

section \<open>ber.cpp: demodulator\<close>

function demod2_loop :: "cdouble list \<Rightarrow> nat \<Rightarrow> nat \<Rightarrow> bool list \<Rightarrow> bool list" where
  "demod2_loop symbols num_sym i bits =
     (if i < num_sym
      then demod2_loop symbols num_sym (i + 1) (bits[i := (Re (symbols ! i) < 0)])
      else bits)"
  by pat_completeness auto
termination
  by (relation "measure (\<lambda>(symbols, num_sym, i, bits). num_sym - i)") auto

function demod4_loop :: "cdouble list \<Rightarrow> nat \<Rightarrow> nat \<Rightarrow> bool list \<Rightarrow> bool list" where
  "demod4_loop symbols num_sym i bits =
     (if i < num_sym
      then (if 2 * i + 1 \<ge> length bits then bits
            else
              let y = cdiv (symbols ! i) scale_qpsk;
                  bits1 = bits[2 * i := (Re y < 0)];
                  bits2 = bits1[2 * i + 1 := (Im y < 0)]
              in demod4_loop symbols num_sym (i + 1) bits2)
      else bits)"
  by pat_completeness auto
termination
  by (relation "measure (\<lambda>(symbols, num_sym, i, bits). num_sym - i)") auto

function demod16_loop :: "cdouble list \<Rightarrow> nat \<Rightarrow> nat \<Rightarrow> bool list \<Rightarrow> bool list" where
  "demod16_loop symbols num_sym i bits =
     (if i < num_sym
      then (if 4 * i + 3 \<ge> length bits then bits
            else
              let z = cdiv (symbols ! i) scale_16qam;
                  re_level = demod_level (Re z);
                  im_level = demod_level (Im z);
                  bits1 = bits[4 * i := fst (level_to_bits re_level)];
                  bits2 = bits1[4 * i + 2 := snd (level_to_bits re_level)];
                  bits3 = bits2[4 * i + 1 := fst (level_to_bits im_level)];
                  bits4 = bits3[4 * i + 3 := snd (level_to_bits im_level)]
              in demod16_loop symbols num_sym (i + 1) bits4)
      else bits)"
  by pat_completeness auto
termination
  by (relation "measure (\<lambda>(symbols, num_sym, i, bits). num_sym - i)") auto

declare demod2_loop.simps [simp del] demod4_loop.simps [simp del] demod16_loop.simps [simp del]

definition demodulate :: "cdouble list \<Rightarrow> int \<Rightarrow> bool list" where
  "demodulate symbols mod_order =
     (let bits_per_sym = bits_per_sym_of mod_order;
          num_sym = length symbols;
          bits = replicate (num_sym * bits_per_sym) False
      in if num_sym = 0 then bits
         else if mod_order = 2 then demod2_loop symbols num_sym 0 bits
         else if mod_order = 4 then demod4_loop symbols num_sym 0 bits
         else if mod_order = 16 then demod16_loop symbols num_sym 0 bits
         else bits)"

section \<open>ber.cpp: random sources\<close>

text \<open>
  The standard library's generators are outside the repository and enter as parameters.
  A seeded generator is the stream it produces: \<open>bit_draw g i\<close> is the \<open>i\<close>-th draw of
  \<open>uniform_int_distribution<int>(0, 1)\<close> from a fresh \<open>g\<close>, and \<open>noise_draw g n sigma j\<close> is the
  \<open>j\<close>-th pair of draws of a fresh \<open>normal_distribution<double>(0, sigma)\<close> from \<open>g\<close> after
  \<open>n\<close> bit draws, as the complex number the source builds from the pair. \<open>stdlib\<close> holds the two
  seeding constructors. \<open>std::random_device\<close> reads the world's entropy.
\<close>

record prng =
  bit_draw :: "nat \<Rightarrow> bool"
  noise_draw :: "nat \<Rightarrow> real \<Rightarrow> nat \<Rightarrow> cdouble"

record stdlib =
  mt19937 :: "32 word \<Rightarrow> prng"
  mt19937_64 :: "64 word \<Rightarrow> prng"

record world =
  entropy :: "nat \<Rightarrow> 32 word"
  consumed :: nat

definition random_device :: "world \<Rightarrow> 32 word \<times> world" where
  "random_device w = (entropy w (consumed w), w \<lparr> consumed := consumed w + 1 \<rparr>)"

text \<open>Concrete instances: a generator that draws only zeros, and an all-zero entropy source.\<close>

definition null_prng :: prng where
  "null_prng = \<lparr> bit_draw = (\<lambda>i. False), noise_draw = (\<lambda>n sigma j. 0) \<rparr>"

definition null_lib :: stdlib where
  "null_lib = \<lparr> mt19937 = (\<lambda>seed. null_prng), mt19937_64 = (\<lambda>seed. null_prng) \<rparr>"

definition null_world :: world where
  "null_world = \<lparr> entropy = (\<lambda>i. 0), consumed = 0 \<rparr>"

section \<open>ber.cpp: uncoded drivers\<close>

definition db_to_linear :: "real \<Rightarrow> real" where
  "db_to_linear db_value = 10 powr (db_value / 10)"

text \<open>\<open>s += cdouble(noise_dist(gen), noise_dist(gen))\<close> for every symbol in order.\<close>

definition add_noise :: "prng \<Rightarrow> nat \<Rightarrow> real \<Rightarrow> cdouble list \<Rightarrow> cdouble list" where
  "add_noise gen drawn sigma symbols =
     map (\<lambda>j. symbols ! j + noise_draw gen drawn sigma j) [0..<length symbols]"

text \<open>\<open>std::transform_reduce\<close> with \<open>not_equal_to\<close> and \<open>plus\<close> over the range of \<open>bits\<close>.\<close>

definition count_errors :: "bool list \<Rightarrow> bool list \<Rightarrow> int" where
  "count_errors bits rx_bits =
     sum_list (map (\<lambda>i. if bits ! i \<noteq> rx_bits ! i then 1 else 0) [0..<length bits])"

text \<open>\<open>if (num_bits % bits_per_sym != 0) num_bits -= num_bits % bits_per_sym\<close>, with C++'s
  remainder (truncating division).\<close>

definition adjust_num_bits :: "int \<Rightarrow> int \<Rightarrow> int" where
  "adjust_num_bits num_bits mod_order =
     (let bits_per_sym = int (bits_per_sym_of mod_order)
      in if num_bits smod bits_per_sym \<noteq> 0 then num_bits - num_bits smod bits_per_sym else num_bits)"

text \<open>
  The simulation proper, which \<open>compute_ber\<close> and \<open>compute_ber_seeded\<close> share word for word:
  generate the bits, modulate, add noise, demodulate, count. \<open>bit_gen\<close> draws the bits and
  \<open>noise_gen\<close> the noise, after \<open>drawn\<close> earlier bit draws from it.
\<close>

definition uncoded_trial :: "prng \<Rightarrow> prng \<Rightarrow> nat \<Rightarrow> int \<Rightarrow> real \<Rightarrow> int \<Rightarrow> real" where
  "uncoded_trial bit_gen noise_gen drawn mod_order snr_db num_bits =
     (let bits_per_sym = bits_per_sym_of mod_order;
          bits = map (bit_draw bit_gen) [0..<nat num_bits];
          symbols = modulate bits mod_order;
          ebno_lin = db_to_linear snr_db;
          esno_lin = real bits_per_sym * ebno_lin;
          n0 = 1 / esno_lin;
          sigma = sqrt (n0 / 2);
          rx = add_noise noise_gen drawn sigma symbols;
          rx_bits = demodulate rx mod_order;
          errors = count_errors bits rx_bits
      in real_of_int errors / real_of_int num_bits)"

definition compute_ber :: "stdlib \<Rightarrow> int \<Rightarrow> real \<Rightarrow> int \<Rightarrow> world \<Rightarrow> real \<times> world" where
  "compute_ber lib mod_order snr_db num_bits w =
     (if mod_order \<noteq> 2 \<and> mod_order \<noteq> 4 \<and> mod_order \<noteq> 16 then (- 1, w)
      else if snr_db < - 50 \<or> snr_db > 50 then (- 1, w)
      else
        let n = adjust_num_bits num_bits mod_order
        in if n \<le> 0 then (0, w)
           else if n > 100000000 then (- 1, w)
           else
             let (seed, w1) = random_device w;
                 gen = mt19937 lib seed;
                 (bit_seed, w2) = random_device w1;
                 bit_gen = mt19937 lib bit_seed
             in (uncoded_trial bit_gen gen 0 mod_order snr_db n, w2))"

text \<open>The seeded driver draws bits and noise from one generator built from the seed, and
  touches no entropy: the world passes through.\<close>

definition compute_ber_seeded ::
  "stdlib \<Rightarrow> int \<Rightarrow> real \<Rightarrow> int \<Rightarrow> 64 word \<Rightarrow> world \<Rightarrow> real \<times> world" where
  "compute_ber_seeded lib mod_order snr_db num_bits seed w =
     (if mod_order \<noteq> 2 \<and> mod_order \<noteq> 4 \<and> mod_order \<noteq> 16 then (- 1, w)
      else if snr_db < - 50 \<or> snr_db > 50 then (- 1, w)
      else
        let n = adjust_num_bits num_bits mod_order
        in if n \<le> 0 then (0, w)
           else if n > 100000000 then (- 1, w)
           else
             let gen = mt19937_64 lib seed
             in (uncoded_trial gen gen (nat n) mod_order snr_db n, w))"

section \<open>ber.cpp: coded driver\<close>

text \<open>The symbol mapping of the coded path. The QPSK loop steps \<open>i\<close> by 2 below \<open>coded_len\<close>;
  the 16-QAM loop steps by 4 and leaves at the first \<open>i\<close> with \<open>i + 3 \<ge> coded_len\<close>, so it runs
  for \<open>i = 4 * j\<close> with \<open>j < coded_len div 4\<close>.\<close>

definition coded_symbols :: "int \<Rightarrow> bool list \<Rightarrow> cdouble list" where
  "coded_symbols mod_order coded_bits =
     (let coded_len = length coded_bits
      in if mod_order = 2
         then map (\<lambda>i. Complex (if coded_bits ! i then - 1 else 1) 0) [0..<coded_len]
         else if mod_order = 4
         then map (\<lambda>j. Complex ((if coded_bits ! (2 * j) then - 1 else 1) * scale_qpsk)
                               ((if coded_bits ! (2 * j + 1) then - 1 else 1) * scale_qpsk))
                [0..<(coded_len + 1) div 2]
         else map (\<lambda>j. Complex (get_level (coded_bits ! (4 * j)) (coded_bits ! (4 * j + 2)) * scale_16qam)
                               (get_level (coded_bits ! (4 * j + 1)) (coded_bits ! (4 * j + 3)) * scale_16qam))
                [0..<coded_len div 4])"

definition llr_levels :: "real list" where
  "llr_levels = [3, 1, - 3, - 1]"

definition lse2 :: "real \<Rightarrow> real \<Rightarrow> real" where
  "lse2 a b = (let m = max a b in m + ln (exp (a - m) + exp (b - m)))"

definition fill_llrs :: "real \<Rightarrow> real \<Rightarrow> real \<times> real" where
  "fill_llrs two_sigma2 x =
     (let metric = map (\<lambda>k. let d = x - llr_levels ! k in - (d * d) / two_sigma2) [0..<4];
          l_ms0 = lse2 (metric ! 0) (metric ! 1);
          l_ms1 = lse2 (metric ! 2) (metric ! 3);
          llr_std_msb = l_ms0 - l_ms1;
          l_ls0 = lse2 (metric ! 0) (metric ! 2);
          l_ls1 = lse2 (metric ! 1) (metric ! 3);
          llr_std_lsb = l_ls0 - l_ls1
      in (- llr_std_msb, - llr_std_lsb))"

definition llr16_of_symbol :: "real \<Rightarrow> cdouble \<Rightarrow> real list" where
  "llr16_of_symbol two_sigma2 symb =
     (let rI = Re symb / scale_16qam;
          rQ = Im symb / scale_16qam;
          llrI = fill_llrs two_sigma2 rI;
          llrQ = fill_llrs two_sigma2 rQ
      in [fst llrI, fst llrQ, snd llrI, snd llrQ])"

text \<open>\<open>llr[idx++] = v\<close> for the emitted values in order, into a zero-initialised vector of
  \<open>coded_len\<close> entries (the values emitted by the driver always fit).\<close>

definition store_llrs :: "nat \<Rightarrow> real list \<Rightarrow> real list" where
  "store_llrs coded_len emitted = emitted @ replicate (coded_len - length emitted) 0"

definition coded_llr :: "int \<Rightarrow> nat \<Rightarrow> real \<Rightarrow> cdouble list \<Rightarrow> real list" where
  "coded_llr mod_order coded_len n0 symbols =
     (let llr_scale = 2 / n0
      in if mod_order = 2
         then map (\<lambda>i. - Re (symbols ! i) * llr_scale) [0..<coded_len]
         else if mod_order = 4
         then store_llrs coded_len
                (concat (map (\<lambda>symb. [- Re symb * llr_scale, - Im symb * llr_scale]) symbols))
         else store_llrs coded_len (concat (map (llr16_of_symbol n0) symbols)))"

text \<open>An array filled from a vector, as a buffer; cells past the end are never read.\<close>

definition buffer_of :: "bool list \<Rightarrow> nat \<Rightarrow> bool" where
  "buffer_of xs i = (i < length xs \<and> xs ! i)"

text \<open>\<open>llr.data()\<close> as the decoder reads it: the driver's LLRs, rounded to binary64.\<close>

definition llr_buffer :: "real list \<Rightarrow> nat \<Rightarrow> double" where
  "llr_buffer xs i = (if i < length xs then binary64_round (xs ! i) else Num 0)"

text \<open>
  The simulation of \<open>compute_ber_coded\<close> from the generation of the info bits on. The arrays
  allocated with \<open>new\<close> start as all-zero buffers in the model; the callee writes every cell
  that is read afterwards.
\<close>

definition coded_trial :: "stdlib \<Rightarrow> int \<Rightarrow> real \<Rightarrow> int \<Rightarrow> int \<Rightarrow> int \<Rightarrow> real" where
  "coded_trial lib mod_order snr_db info_bits_count coded_len seed =
     (let gen = mt19937 lib (word_of_int seed);
          orig_bits = map (bit_draw gen) [0..<nat info_bits_count];
          enc = convolutional_encode (Some (buffer_of orig_bits)) info_bits_count (Some zero_bits) (Some 0)
      in if status enc \<noteq> 0 \<or> the (out_len enc) \<noteq> coded_len then - 1
         else
           let coded_bits = map (the (out_bits enc)) [0..<nat coded_len];
               symbols = coded_symbols mod_order coded_bits;
               code_rate = 1 / 2;
               ebno_lin = 10 powr (snr_db / 10);
               coded_bits_per_symbol = (if mod_order = 2 then 1 else if mod_order = 4 then 2 else 4);
               esno_lin = ebno_lin * code_rate * coded_bits_per_symbol;
               n0 = 1 / esno_lin;
               rx = add_noise gen (nat info_bits_count) (sqrt (n0 / 2)) symbols;
               llr = coded_llr mod_order (nat coded_len) n0 rx;
               dec = viterbi_decode (Some (llr_buffer llr)) coded_len (Some zero_bits) (Some 0)
           in if status dec \<noteq> 0 then - 10 - real_of_int (status dec)
              else
                let decoded_len = the (out_len dec)
                in if decoded_len \<le> 0 \<or> decoded_len > info_bits_count then - 0.3
                   else
                     let cmp_len = min decoded_len info_bits_count;
                         bit_errors = count_errors (take (nat cmp_len) orig_bits)
                                        (map (the (out_bits dec)) [0..<nat cmp_len])
                     in real_of_int bit_errors / real_of_int cmp_len)"

definition compute_ber_coded ::
  "stdlib \<Rightarrow> int \<Rightarrow> real \<Rightarrow> int \<Rightarrow> int \<Rightarrow> world \<Rightarrow> real \<times> world" where
  "compute_ber_coded lib mod_order snr_db num_bits seed w =
     (if mod_order \<noteq> 2 \<and> mod_order \<noteq> 4 \<and> mod_order \<noteq> 16
      then compute_ber lib mod_order snr_db num_bits w
      else
        let cast_count = int32 num_bits;
            odd16 = (mod_order = 16 \<and> cast_count smod 2 \<noteq> 0);
            info_bits_count = (if odd16 then cast_count - 1 else cast_count)
        in if odd16 \<and> info_bits_count \<le> 0 then (- 0.15, w)
           else if info_bits_count \<le> 0 then (- 0.1, w)
           else
             let constraint_tail = 6;
                 coded_len = int32 (2 * int32 (info_bits_count + constraint_tail))
             in if coded_len \<le> 0 then (- 0.2, w)
                else if coded_len > 200000000 then (- 0.25, w)
                else (coded_trial lib mod_order snr_db info_bits_count coded_len seed, w))"

section \<open>Auxiliary notions for the drivers\<close>

text \<open>The info-bit count the coded driver works with: the count after the narrowing cast,
  less one when the order is 16 and the count is odd.\<close>

definition coded_info_count :: "int \<Rightarrow> int \<Rightarrow> int" where
  "coded_info_count mod_order cast_count =
     (if mod_order = 16 \<and> cast_count smod 2 \<noteq> 0 then cast_count - 1 else cast_count)"

text \<open>The quantities of the spec's LLR generator for 16-QAM, in the spec's words.\<close>

definition spec_lse2 :: "real \<Rightarrow> real \<Rightarrow> real" where
  "spec_lse2 a b = max a b + ln (1 + exp (- \<bar>a - b\<bar>))"

definition spec_pam_levels :: "real list" where
  "spec_pam_levels = [3, 1, - 3, - 1]"

definition spec_metric :: "real \<Rightarrow> real \<Rightarrow> nat \<Rightarrow> real" where
  "spec_metric N0 x k = - ((x - spec_pam_levels ! k)\<^sup>2) / N0"

definition spec_llr_msb :: "real \<Rightarrow> real \<Rightarrow> real" where
  "spec_llr_msb N0 x =
     - (spec_lse2 (spec_metric N0 x 0) (spec_metric N0 x 1)
        - spec_lse2 (spec_metric N0 x 2) (spec_metric N0 x 3))"

definition spec_llr_lsb :: "real \<Rightarrow> real \<Rightarrow> real" where
  "spec_llr_lsb N0 x =
     - (spec_lse2 (spec_metric N0 x 0) (spec_metric N0 x 2)
        - spec_lse2 (spec_metric N0 x 1) (spec_metric N0 x 3))"

definition test_symbols :: "cdouble list" where
  "test_symbols = [Complex 1 0]"

text \<open>A library whose noise depends on the seed, and a second entropy source, to show that
  the unseeded driver does read the world.\<close>

definition seed_prng :: "32 word \<Rightarrow> prng" where
  "seed_prng s = \<lparr> bit_draw = (\<lambda>i. False),
                   noise_draw = (\<lambda>n sigma j. if s = 0 then 0 else Complex (- 5) 0) \<rparr>"

definition seed_lib :: stdlib where
  "seed_lib = \<lparr> mt19937 = seed_prng, mt19937_64 = (\<lambda>seed. null_prng) \<rparr>"

definition other_world :: world where
  "other_world = \<lparr> entropy = (\<lambda>i. 1), consumed = 0 \<rparr>"

chapter \<open>Properties\<close>

section \<open>Binary64 arithmetic\<close>

lemma round_half_even_of_int [simp]: "round_half_even (of_int n) = n"
  by (simp add: round_half_even_def)


lemma find_upto_Some:
  assumes "find P [i..j] = Some e"
  shows "i \<le> e" "e \<le> j" "P e" "\<And>e'. i \<le> e' \<Longrightarrow> e' < e \<Longrightarrow> \<not> P e'"
proof -
  from assms obtain k where k: "k < length [i..j]" "P ([i..j] ! k)" "e = [i..j] ! k"
    "\<forall>l<k. \<not> P ([i..j] ! l)"
    unfolding find_Some_iff by blast
  have kj: "i + int k \<le> j" using k(1) by simp
  then have e: "e = i + int k" using k(3) by (simp add: nth_upto)
  show "i \<le> e" "e \<le> j" using e kj by simp_all
  show "P e" using k(2,3) by simp
  show "\<not> P e'" if "i \<le> e'" "e' < e" for e'
  proof -
    let ?l = "nat (e' - i)"
    have l: "?l < k" using that e by simp
    have "[i..j] ! ?l = e'" using that e kj by (simp add: nth_upto)
    then show ?thesis using k(4) l by metis
  qed
qed

lemma find_upto_exists:
  assumes "i \<le> e0" "e0 \<le> j" "P e0"
  shows "\<exists>e. find P [i..j] = Some e"
proof (cases "find P [i..j]")
  case None
  then have "\<not> P e0" using assms(1,2) by (simp add: find_None_iff)
  then show ?thesis using assms(3) by simp
next
  case (Some e)
  then show ?thesis by simp
qed

lemma binary64_exponent_props:
  assumes "binary64_exponent x = Some e"
  shows "- 1074 \<le> e" "e \<le> 971" "\<bar>x\<bar> < 2 powi (e + 53)"
    "\<And>e'. - 1074 \<le> e' \<Longrightarrow> e' < e \<Longrightarrow> 2 powi (e' + 53) \<le> \<bar>x\<bar>"
  using find_upto_Some [OF assms [unfolded binary64_exponent_def]]
  by (simp_all add: not_less binary64_emin_def binary64_emax_def)

lemma binary64_exponent_eq:
  assumes "- 1074 \<le> e" "e \<le> 971" "\<bar>x\<bar> < 2 powi (e + 53)"
    and "e = - 1074 \<or> 2 powi (e + 52) \<le> \<bar>x\<bar>"
  shows "binary64_exponent x = Some e"
proof -
  have "binary64_emin \<le> e" "e \<le> binary64_emax"
    using assms(1,2) by (simp_all add: binary64_emin_def binary64_emax_def)
  from find_upto_exists [of binary64_emin e binary64_emax "\<lambda>e. \<bar>x\<bar> < 2 powi (e + 53)", OF this assms(3)]
  obtain e1 where e1: "binary64_exponent x = Some e1"
    unfolding binary64_exponent_def by blast
  note p = binary64_exponent_props [OF e1]
  have "\<not> e < e1" using p(4) [of e] assms(1,3) by force
  moreover have "\<not> e1 < e"
  proof
    assume l: "e1 < e"
    then have "e \<noteq> - 1074" using p(1) by simp
    then have "2 powi (e + 52) \<le> \<bar>x\<bar>" using assms(4) by simp
    moreover have "(2::real) powi (e1 + 53) \<le> 2 powi (e + 52)"
      by (rule power_int_increasing) (use l in simp_all)
    ultimately show False using p(3) by linarith
  qed
  ultimately show ?thesis using e1 by simp
qed

text \<open>A value \<open>m * 2^e\<close> with \<open>|m| < 2^53\<close> and \<open>-1074 \<le> e \<le> 971\<close> rounds to itself.\<close>

lemma binary64_round_exact:
  assumes m: "\<bar>m\<bar> < 2 ^ 53" and e0: "- 1074 \<le> e0" "e0 \<le> 971"
  shows "binary64_round (of_int m * 2 powi e0) = Num (of_int m * 2 powi e0)"
proof -
  let ?x = "of_int m * 2 powi e0 :: real"
  have ax: "\<bar>?x\<bar> = of_int \<bar>m\<bar> * 2 powi e0" by (simp add: abs_mult)
  have "real_of_int \<bar>m\<bar> < 2 ^ 53" using m by (metis of_int_less_numeral_power_cancel_iff)
  then have "\<bar>?x\<bar> < 2 ^ 53 * 2 powi e0" unfolding ax by (simp add: power_int_def)
  also have "\<dots> = 2 powi (e0 + 53)" by (simp add: power_int_add)
  finally have P0: "\<bar>?x\<bar> < 2 powi (e0 + 53)" .
  have "binary64_emin \<le> e0" "e0 \<le> binary64_emax"
    using e0 by (simp_all add: binary64_emin_def binary64_emax_def)
  from find_upto_exists [of binary64_emin e0 binary64_emax "\<lambda>e. \<bar>?x\<bar> < 2 powi (e + 53)", OF this P0]
  obtain e where e: "binary64_exponent ?x = Some e"
    unfolding binary64_exponent_def by blast
  note p = binary64_exponent_props [OF e]
  have le: "e \<le> e0"
  proof (rule ccontr)
    assume "\<not> e \<le> e0"
    then have "2 powi (e0 + 53) \<le> \<bar>?x\<bar>" using p(4) [of e0] e0 by simp
    then show False using P0 by simp
  qed
  have "(2::real) powi e0 = 2 powi (e0 - e) * 2 powi e"
    by (simp add: power_int_add [symmetric])
  also have "(2::real) powi (e0 - e) = of_int (2 ^ nat (e0 - e))"
    using le by (simp add: power_int_def)
  finally have pw: "(2::real) powi e0 = of_int (2 ^ nat (e0 - e)) * 2 powi e" .
  have q: "?x / 2 powi e = of_int (m * 2 ^ nat (e0 - e))"
    unfolding pw by simp
  have "real_of_int (round_half_even (?x / 2 powi e)) * 2 powi e
          = real_of_int m * (real_of_int (2 ^ nat (e0 - e)) * 2 powi e)"
    unfolding q round_half_even_of_int by simp
  also have "\<dots> = ?x" unfolding pw [symmetric] ..
  finally have y: "real_of_int (round_half_even (?x / 2 powi e)) * 2 powi e = ?x" .
  have "(2::real) powi (e0 + 53) \<le> 2 powi 1024"
    by (rule power_int_increasing) (use e0 in simp_all)
  then have "\<bar>?x\<bar> < 2 ^ 1024" using P0 by simp
  then show ?thesis
    unfolding binary64_round_def e option.case Let_def y by simp
qed


lemma binary64_round_0 [simp]: "binary64_round 0 = Num 0"
  using binary64_round_exact [of 0 0] by simp




lemma binary64_exponent_None:
  assumes "2 ^ 1024 \<le> \<bar>x\<bar>"
  shows "binary64_exponent x = None"
  unfolding binary64_exponent_def find_None_iff
proof
  assume "\<exists>e. e \<in> set [binary64_emin..binary64_emax] \<and> \<bar>x\<bar> < 2 powi (e + 53)"
  then obtain e :: int where e: "e \<le> 971" "\<bar>x\<bar> < 2 powi (e + 53)"
    by (auto simp: binary64_emax_def)
  have "(2::real) powi (e + 53) \<le> 2 powi 1024"
    by (rule power_int_increasing) (use e in simp_all)
  also have "(2::real) powi 1024 = 2 ^ 1024" by (simp only: power_int_numeral)
  finally show False using e(2) assms by linarith
qed

lemma binary64_overflow: "dadd (Num (2 ^ 1023)) (Num (2 ^ 1023)) = PosInf"
proof -
  have "binary64_exponent (2 ^ 1023 + 2 ^ 1023) = None"
    by (rule binary64_exponent_None) simp
  then show ?thesis by (simp add: dadd_def binary64_round_def)
qed

lemma binary64_round_1e30: "binary64_round (10 ^ 30) = Num 1000000000000000019884624838656"
proof -
  have e: "binary64_exponent (10 ^ 30) = Some 47"
    by (rule binary64_exponent_eq) (simp_all add: power_int_def)
  have f: "\<lfloor>10 ^ 30 / 2 powi 47 :: real\<rfloor> = 7105427357601001"
    by (rule floor_unique) (simp_all add: power_int_def)
  have r: "round_half_even (10 ^ 30 / 2 powi 47) = 7105427357601002"
    unfolding round_half_even_def Let_def f by (simp add: power_int_def)
  show ?thesis unfolding binary64_round_def e option.case Let_def r by (simp add: power_int_def)
qed

lemma dgt_NaN_left [simp]: "\<not> dgt NaN y"
  by (simp add: dgt_def)


lemma dgt_PosInf_right [simp]: "\<not> dgt x PosInf"
  by (cases x) (simp_all add: dgt_def)

lemma dadd_PosInf_Num [simp]: "dadd PosInf (Num b) = PosInf"
  by (simp add: dadd_def)



lemma NEG_INF_eq: "NEG_INF = Num (- 1000000000000000019884624838656)"
  unfolding NEG_INF_def binary64_round_1e30 by (simp add: dneg_def)

lemma deq_NEG_INF [simp]: "deq x NEG_INF \<longleftrightarrow> x = NEG_INF"
  by (auto simp: deq_def NEG_INF_eq)

lemma dgt_Num [simp]: "dgt (Num a) (Num b) \<longleftrightarrow> b < a"
  by (simp add: dgt_def)

lemma dgt_irrefl: "\<not> dgt x x"
  by (cases x) (simp_all add: dgt_def)

lemma dneg_Num [simp]: "dneg (Num a) = Num (- a)"
  by (simp add: dneg_def)

lemma dadd_Num [simp]: "dadd (Num a) (Num b) = binary64_round (a + b)"
  by (simp add: dadd_def)

lemma dsub_Num [simp]: "dsub (Num a) (Num b) = binary64_round (a - b)"
  by (simp add: dsub_def)








section \<open>The trellis table\<close>

lemma popcount_numeral:
  "popcount 0 = 0"
  "popcount (Suc 0) = Suc 0"
  "popcount (numeral (num.Bit0 k)) = popcount (numeral k)"
  "popcount (numeral (num.Bit1 k)) = Suc (popcount (numeral k))"
proof -
  show "popcount 0 = 0" by (simp add: popcount.simps)
  show "popcount (Suc 0) = Suc 0" by (simp add: popcount.simps [of "Suc 0"] popcount.simps [of 0])
  show "popcount (numeral (num.Bit0 k)) = popcount (numeral k)"
    by (subst popcount.simps) simp
  show "popcount (numeral (num.Bit1 k)) = Suc (popcount (numeral k))"
    by (subst popcount.simps) (simp add: numeral_Bit1_div_2)
qed

lemma conv_entry_all:
  "\<forall>q \<in> set [0..<64]. fst (conv_entry q 0) = q div 2 \<and> fst (conv_entry q (Suc 0)) = 32 + q div 2
      \<and> snd (conv_entry q 0) < 4 \<and> snd (conv_entry q (Suc 0)) = 3 - snd (conv_entry q 0)"
  by (simp add: upt_rec conv_entry_def convolve_def uint8_def G1_def G2_def CONSTRAINT_LENGTH_def
      popcount_numeral numeral_2_eq_2 [symmetric])

lemma NUM_STATES_64: "NUM_STATES = 64"
  by (simp add: NUM_STATES_def CONSTRAINT_LENGTH_def)

lemma state_table_nth:
  assumes "q < 64"
  shows "next_state (state_table ! q) = [fst (conv_entry q 0), fst (conv_entry q (Suc 0))]"
    and "output_bits (state_table ! q) = [snd (conv_entry q 0), snd (conv_entry q (Suc 0))]"
  using assms by (simp_all add: state_table_def NUM_STATES_64 upt_rec [of 0 2] upt_rec [of "Suc 0" 2])

lemma step_state_eq:
  assumes "q < 64"
  shows "step_state q 0 = q div 2" and "step_state q (Suc 0) = 32 + q div 2"
  using assms conv_entry_all by (simp_all add: step_state_def state_table_nth)

lemma step_state_less: "q < 64 \<Longrightarrow> u < 2 \<Longrightarrow> step_state q u < 64"
  using step_state_eq [of q] by (cases "u = 0") (auto simp: less_2_cases_iff)




lemma encode_step_simps:
  "enc_st (encode_step (if u then 1 else 0) s) = step_state (enc_st s) (if u then 1 else 0)"
  "enc_idx (encode_step (if u then 1 else 0) s) = enc_idx s + 2"
  "enc_mem (encode_step (if u then 1 else 0) s) =
     (enc_mem s)(enc_idx s := fst (out_pair (enc_st s) (if u then 1 else 0)),
                 enc_idx s + 1 := snd (out_pair (enc_st s) (if u then 1 else 0)))"
  by (simp_all add: encode_step_def step_state_def out_pair_def Let_def)

lemma encode_fold:
  "fold (\<lambda>u. encode_step (if u then 1 else 0)) us s =
     \<lparr> enc_st = run_state (enc_st s) us,
       enc_idx = enc_idx s + 2 * length us,
       enc_mem = (\<lambda>i. if enc_idx s \<le> i \<and> i - enc_idx s < 2 * length us
                        then coded_stream (enc_st s) us ! (i - enc_idx s) else enc_mem s i) \<rparr>"
proof (induction us arbitrary: s)
  case Nil
  show ?case by simp
next
  case (Cons u us)
  have "fold (\<lambda>u. encode_step (if u then 1 else 0)) (u # us) s =
        fold (\<lambda>u. encode_step (if u then 1 else 0)) us (encode_step (if u then 1 else 0) s)"
    by simp
  also have "\<dots> = \<lparr> enc_st = run_state (enc_st s) (u # us),
       enc_idx = enc_idx s + 2 * length (u # us),
       enc_mem = (\<lambda>i. if enc_idx s \<le> i \<and> i - enc_idx s < 2 * length (u # us)
                        then coded_stream (enc_st s) (u # us) ! (i - enc_idx s) else enc_mem s i) \<rparr>"
    unfolding Cons.IH encode_step_simps
    by (auto simp: fun_eq_iff nth_Cons' Suc_diff_le)
  finally show ?case .
qed

lemma run_state_append: "run_state q (us @ vs) = run_state (run_state q us) vs"
  by (induction us arbitrary: q) simp_all

lemma run_state_less: "q < 64 \<Longrightarrow> run_state q us < 64"
proof (induction us arbitrary: q)
  case Nil
  then show ?case by simp
next
  case (Cons u us)
  then show ?case using step_state_less [of q "if u then 1 else 0"] by simp
qed

lemma run_state_zeros: "q < 64 \<Longrightarrow> run_state q (replicate n False) = q div 2 ^ n"
proof (induction n arbitrary: q)
  case 0
  then show ?case by simp
next
  case (Suc n)
  have "q div 2 < 64" using Suc.prems by simp
  then show ?case using Suc.prems Suc.IH [of "q div 2"]
    by (simp add: step_state_eq div_mult2_eq)
qed

lemma length_coded_stream [simp]: "length (coded_stream q us) = 2 * length us"
  by (induction us arbitrary: q) simp_all

lemma encode_run_eq:
  "encode_run ib L cb =
     \<lparr> enc_st = run_state 0 (map ib [0..<L] @ tail_bits),
       enc_idx = 2 * (L + 6),
       enc_mem = (\<lambda>i. if i < 2 * (L + 6) then coded_stream 0 (map ib [0..<L] @ tail_bits) ! i else cb i) \<rparr>"
proof -
  have a: "fold (\<lambda>i. encode_step (if ib i then 1 else 0)) [0..<L] s =
           fold (\<lambda>u. encode_step (if u then 1 else 0)) (map ib [0..<L]) s" for s
    by (simp add: fold_map comp_def)
  have b: "fold (\<lambda>i. encode_step 0) [0..<CONSTRAINT_LENGTH - 1] s =
           fold (\<lambda>u. encode_step (if u then 1 else 0)) tail_bits s" for s
  proof -
    have t: "tail_bits = map (\<lambda>i. False) [0..<CONSTRAINT_LENGTH - 1]"
      by (simp add: tail_bits_def map_replicate_const)
    have f: "fold (\<lambda>u. encode_step (if u then 1 else 0)) (map (\<lambda>i. False) xs) s =
             fold (\<lambda>i. encode_step 0) xs s" for xs :: "nat list"
      by (simp add: fold_map comp_def)
    show ?thesis unfolding t by (rule f [symmetric])
  qed
  have "encode_run ib L cb =
        fold (\<lambda>u. encode_step (if u then 1 else 0)) (map ib [0..<L] @ tail_bits)
          \<lparr> enc_st = 0, enc_idx = 0, enc_mem = cb \<rparr>"
    by (simp only: encode_run_def Let_def a b fold_append o_apply)
  also have "\<dots> = \<lparr> enc_st = run_state 0 (map ib [0..<L] @ tail_bits),
       enc_idx = 2 * (L + 6),
       enc_mem = (\<lambda>i. if i < 2 * (L + 6) then coded_stream 0 (map ib [0..<L] @ tail_bits) ! i else cb i) \<rparr>"
    unfolding encode_fold by (simp add: tail_bits_def CONSTRAINT_LENGTH_def)
  finally show ?thesis .
qed

lemma run_state_terminated: "run_state 0 (us @ tail_bits) = 0"
proof -
  have "run_state 0 us < 64" by (rule run_state_less) simp
  then show ?thesis
    by (simp add: run_state_append tail_bits_def CONSTRAINT_LENGTH_def run_state_zeros)
qed

lemma int32_id: "- 2147483648 \<le> x \<Longrightarrow> x \<le> 2147483647 \<Longrightarrow> int32 x = x"
  by (simp add: int32_def signed_take_bit_int_eq_self)


section \<open>Encoder and decoder interface\<close>

lemma convolutional_encode_len:
  assumes "0 < L"
  shows "out_len (convolutional_encode (Some ib) L (Some cb) (Some cl)) = Some (int32 (int32 (L + 6) * 2))"
  using assms by (simp add: convolutional_encode_def Let_def CONSTRAINT_LENGTH_def CODE_RATE_DEN_def)

lemma convolutional_encode_ok:
  assumes "1 \<le> L" and "2 * (L + 6) \<le> 2147483647"
  shows "status (convolutional_encode (Some ib) L (Some cb) (Some cl)) = 0"
    and "out_len (convolutional_encode (Some ib) L (Some cb) (Some cl)) = Some (2 * (L + 6))"
    and "out_bits (convolutional_encode (Some ib) L (Some cb) (Some cl)) =
           Some (enc_mem (encode_run ib (nat L) cb))"
  using assms by (simp_all add: convolutional_encode_len int32_id) (simp_all add: convolutional_encode_def Let_def)

text \<open>
  Claim C6, as amended. For an info sequence of length \<open>L \<ge> 1\<close> whose coded length
  \<open>2 * (L + 6)\<close> fits the interface's 32-bit \<open>int\<close>, the encoder succeeds, reports the
  coded length \<open>2 * (L + 6)\<close>, has written exactly the cells \<open>0 ..< 2 * (L + 6)\<close> of the
  output buffer (two per info bit and two per each of the six zero tail steps, every other cell
  is as before), these cells hold the coded stream of the trellis started in state 0 on the info
  bits followed by the tail, and the trellis state is back at 0. For \<open>L \<le> 0\<close> the call
  fails and leaves the buffer and the length cell as they were.
\<close>

theorem encode_emits_terminated_codeword:
  "(1 \<le> L \<and> 2 * (L + 6) \<le> 2147483647 \<longrightarrow>
      (let r = convolutional_encode (Some ib) L (Some cb) (Some cl);
           s = encode_run ib (nat L) cb
       in status r = 0 \<and> out_len r = Some (2 * (L + 6)) \<and> out_bits r = Some (enc_mem s)
          \<and> enc_idx s = nat (2 * (L + 6)) \<and> enc_st s = 0
          \<and> map (enc_mem s) [0..<nat (2 * (L + 6))] = coded_stream 0 (map ib [0..<nat L] @ tail_bits)
          \<and> (\<forall>i \<ge> nat (2 * (L + 6)). enc_mem s i = cb i)))
   \<and> (L \<le> 0 \<longrightarrow>
      (let r = convolutional_encode (Some ib) L (Some cb) (Some cl)
       in status r \<noteq> 0 \<and> out_bits r = Some cb \<and> out_len r = Some cl))"
proof (intro conjI impI)
  assume L: "1 \<le> L \<and> 2 * (L + 6) \<le> 2147483647"
  then have L1: "1 \<le> L" and L2: "2 * (L + 6) \<le> 2147483647" by simp_all
  have "0 \<le> L" using L by simp
  then have n: "nat (2 * (L + 6)) = 2 * (nat L + 6)"
    by (simp add: nat_add_distrib nat_mult_distrib)
  have m: "map (enc_mem (encode_run ib (nat L) cb)) [0..<2 * (nat L + 6)] =
           coded_stream 0 (map ib [0..<nat L] @ tail_bits)"
    by (rule nth_equalityI) (simp_all add: encode_run_eq tail_bits_def CONSTRAINT_LENGTH_def)
  show "let r = convolutional_encode (Some ib) L (Some cb) (Some cl);
           s = encode_run ib (nat L) cb
       in status r = 0 \<and> out_len r = Some (2 * (L + 6)) \<and> out_bits r = Some (enc_mem s)
          \<and> enc_idx s = nat (2 * (L + 6)) \<and> enc_st s = 0
          \<and> map (enc_mem s) [0..<nat (2 * (L + 6))] = coded_stream 0 (map ib [0..<nat L] @ tail_bits)
          \<and> (\<forall>i \<ge> nat (2 * (L + 6)). enc_mem s i = cb i)"
    unfolding Let_def n using convolutional_encode_ok [OF L1 L2, of ib cb cl] m
    by (simp add: encode_run_eq run_state_terminated)
next
  assume "L \<le> 0"
  then show "let r = convolutional_encode (Some ib) L (Some cb) (Some cl)
       in status r \<noteq> 0 \<and> out_bits r = Some cb \<and> out_len r = Some cl"
    by (simp add: convolutional_encode_def)
qed

theorem encode_emits_terminated_codeword_witness:
  "status (convolutional_encode (Some zero_bits) 1 (Some zero_bits) (Some 0)) = 0
   \<and> out_len (convolutional_encode (Some zero_bits) 1 (Some zero_bits) (Some 0)) = Some 14
   \<and> enc_st (encode_run zero_bits 1 zero_bits) = 0
   \<and> status (convolutional_encode (Some zero_bits) 0 (Some zero_bits) (Some 0)) \<noteq> 0
   \<and> out_bits (convolutional_encode (Some zero_bits) 0 (Some zero_bits) (Some 0)) = Some zero_bits"
  using encode_emits_terminated_codeword [of 1 zero_bits zero_bits 0]
    encode_emits_terminated_codeword [of 0 zero_bits zero_bits 0]
  by (simp add: Let_def)

text \<open>
  Claim C6 as stated fails for the lengths whose coded length is not a 32-bit \<open>int\<close>: at
  \<open>L = 2^30 - 6\<close> the product \<open>total_info_bits * 2\<close> is \<open>2^31\<close>, and the length cell cannot
  hold it.
\<close>

theorem encode_length_overflow:
  "out_len (convolutional_encode (Some zero_bits) 1073741818 (Some zero_bits) (Some 0))
     \<noteq> Some (2 * (1073741818 + 6))"
  by (simp add: convolutional_encode_len int32_def)

lemma smod2_iff: "0 < n \<Longrightarrow> (n smod 2 \<noteq> 0) = odd n" for n :: int
  by (simp add: signed_modulo_int_def sgn_if odd_iff_mod_2_eq_one)

lemma sdiv2_eq: "0 < n \<Longrightarrow> n sdiv 2 = n div 2" for n :: int
  by (simp add: signed_divide_int_def sgn_if)

text \<open>
  Claim C7. The decoder returns a nonzero code exactly when a pointer is null, the received
  length is not positive or is odd, or the info length \<open>N - 6\<close> (with \<open>N\<close> half the received
  length) is not positive. A failing call leaves the output buffer (and the length cell)
  untouched; a successful one reports the decoded length \<open>N - 6\<close>.
\<close>

theorem viterbi_decode_failure_cases:
  "(let r = viterbi_decode llr n db dl
    in (status r \<noteq> 0 \<longleftrightarrow>
          (llr = None \<or> db = None \<or> dl = None \<or> n \<le> 0 \<or> odd n \<or> n sdiv 2 - 6 \<le> 0))
       \<and> (status r \<noteq> 0 \<longrightarrow> out_bits r = db \<and> out_len r = dl)
       \<and> (status r = 0 \<longrightarrow> out_len r = Some (n sdiv 2 - 6)))"
proof (cases "llr = None \<or> db = None \<or> dl = None \<or> n \<le> 0")
  case True
  then show ?thesis by (auto simp: viterbi_decode_def Let_def)
next
  case False
  then have "0 < n" by simp
  with False show ?thesis
    by (simp add: viterbi_decode_def Let_def smod2_iff CONSTRAINT_LENGTH_def)
qed

theorem viterbi_decode_failure_cases_witness:
  "status (viterbi_decode (Some (ideal_llr (Num 10) zero_bits)) 14 (Some zero_bits) (Some 0)) = 0
   \<and> out_len (viterbi_decode (Some (ideal_llr (Num 10) zero_bits)) 14 (Some zero_bits) (Some 0)) = Some 1
   \<and> status (viterbi_decode (Some (ideal_llr (Num 10) zero_bits)) 13 (Some zero_bits) (Some 0)) \<noteq> 0
   \<and> out_bits (viterbi_decode (Some (ideal_llr (Num 10) zero_bits)) 13 (Some zero_bits) (Some 0)) = Some zero_bits"
  using viterbi_decode_failure_cases [of "Some (ideal_llr (Num 10) zero_bits)" 14 "Some zero_bits" "Some 0"]
    viterbi_decode_failure_cases [of "Some (ideal_llr (Num 10) zero_bits)" 13 "Some zero_bits" "Some 0"]
  by (simp add: Let_def sdiv2_eq)

section \<open>The forward pass, cell by cell\<close>

lemma acs_effect:
  fixes llr0 llr1 :: double
  assumes wf: "wf_grid N g" and s: "s < N" and st: "st < 64" and u: "u < 2"
  shows "wf_grid N (acs s llr0 llr1 st u g)"
    and "t \<le> N \<Longrightarrow> q < 64 \<Longrightarrow>
         metric_at (acs s llr0 llr1 st u g) t q =
           (if t = s + 1 \<and> q = step_state st u
               \<and> dgt (candidate g s llr0 llr1 st u) (metric_at g (s + 1) (step_state st u))
            then candidate g s llr0 llr1 st u else metric_at g t q)"
    and "t \<le> N \<Longrightarrow> q < 64 \<Longrightarrow>
         history_at (acs s llr0 llr1 st u g) t q =
           (if t = s + 1 \<and> q = step_state st u
               \<and> dgt (candidate g s llr0 llr1 st u) (metric_at g (s + 1) (step_state st u))
            then uint8 (push_bit 1 st OR u) else history_at g t q)"
proof -
  let ?c = "candidate g s llr0 llr1 st u"
  let ?upd = "dgt ?c (metric_at g (s + 1) (step_state st u))"
  let ?g' = "acs s llr0 llr1 st u g"
  have nx: "step_state st u < 64" using st u by (rule step_state_less)
  have g'_eq: "?g' = (if ?upd
       then g \<lparr> path_metrics :=
                    (path_metrics g)[s + 1 := (path_metrics g ! (s + 1))[step_state st u := ?c]],
                  path_history :=
                    (path_history g)[s + 1 :=
                       (path_history g ! (s + 1))[step_state st u := uint8 (push_bit 1 st OR u)]] \<rparr>
       else g)"
    by (simp add: acs_def Let_def candidate_def metric_at_def step_state_def)
  show "wf_grid N ?g'"
    using wf s unfolding g'_eq wf_grid_def by (auto simp: nth_list_update)
  show "metric_at ?g' t q = (if t = s + 1 \<and> q = step_state st u \<and> ?upd then ?c else metric_at g t q)"
    if "t \<le> N" "q < 64"
    using wf s that nx unfolding g'_eq wf_grid_def metric_at_def
    by (auto simp: nth_list_update)
  show "history_at ?g' t q = (if t = s + 1 \<and> q = step_state st u \<and> ?upd
                             then uint8 (push_bit 1 st OR u) else history_at g t q)"
    if "t \<le> N" "q < 64"
    using wf s that nx unfolding g'_eq wf_grid_def history_at_def metric_at_def
    by (auto simp: nth_list_update)
qed

lemma split_state:
  assumes "q < 64"
  shows "(q < 32 \<longrightarrow> q mod 32 = q \<and> q div 32 = 0) \<and> (\<not> q < 32 \<longrightarrow> q mod 32 = q - 32 \<and> q div 32 = Suc 0)"
proof (intro conjI impI)
  assume "q < 32"
  then show "q mod 32 = q" "q div 32 = 0" by simp_all
next
  assume "\<not> q < 32"
  then obtain r where r: "q = 32 + r" "r < 32" using assms by (metis le_Suc_ex not_less add.commute add_less_cancel_right numeral_Bit0 nat_add_left_cancel_less)
  then show "q mod 32 = q - 32" "q div 32 = Suc 0" by simp_all
qed

lemma step_state_hits:
  assumes "st < 64" "u < 2" "q < 64"
  shows "q = step_state st u \<longleftrightarrow> st div 2 = q mod 32 \<and> u = q div 32"
proof -
  have h: "st div 2 < 32" using assms(1) by simp
  from assms(2) consider "u = 0" | "u = Suc 0" by arith
  then show ?thesis
  proof cases
    case 1
    show ?thesis using split_state [OF assms(3)] h 1 assms(1)
      by (cases "q < 32") (auto simp: step_state_eq)
  next
    case 2
    show ?thesis using split_state [OF assms(3)] h 2 assms(1)
      by (cases "q < 32") (auto simp: step_state_eq)
  qed
qed

lemma candidate_eq:
  "metric_at g' s st = metric_at g s st \<Longrightarrow> candidate g' s llr0 llr1 st u = candidate g s llr0 llr1 st u"
  by (simp add: candidate_def metric_at_def)

lemma acs_cell_effect:
  fixes llr0 llr1 :: double
  assumes wf: "wf_grid N g" and s: "s < N" and st: "st < 64" and u: "u < 2"
    and t: "t \<le> N" and q: "q < 64"
  shows "cell (acs s llr0 llr1 st u g) t q =
           (if t = s + 1 \<and> st div 2 = q mod 32 \<and> u = q div 32
            then acs_cell True (candidate g s llr0 llr1 st u) (uint8 (push_bit 1 st OR u)) (cell g t q)
            else cell g t q)"
  using acs_effect(2,3) [OF wf s st u t q, of llr0 llr1] step_state_hits [OF st u q]
  by (auto simp: cell_def acs_cell_def)

lemma state_body_effect:
  fixes llr0 llr1 :: double
  assumes wf: "wf_grid N g" and s: "s < N" and st: "st < 64"
  shows "wf_grid N (state_body s llr0 llr1 st g)"
    and "t \<le> N \<Longrightarrow> q < 64 \<Longrightarrow>
         cell (state_body s llr0 llr1 st g) t q =
           (if t = s + 1 \<and> st div 2 = q mod 32
            then acs_cell (metric_at g s st \<noteq> NEG_INF) (candidate g s llr0 llr1 st (q div 32))
                   (uint8 (push_bit 1 st OR q div 32)) (cell g t q)
            else cell g t q)"
proof -
  let ?g0 = "acs s llr0 llr1 st 0 g"
  let ?g1 = "acs s llr0 llr1 st (Suc 0) ?g0"
  have sb: "state_body s llr0 llr1 st g = (if metric_at g s st = NEG_INF then g else ?g1)"
    by (simp add: state_body_def metric_at_def upt_rec [of 0 2] upt_rec [of "Suc 0" 2])
  have wf0: "wf_grid N ?g0" by (rule acs_effect(1) [OF wf s st]) simp
  have wf1: "wf_grid N ?g1" by (rule acs_effect(1) [OF wf0 s st]) simp
  show "wf_grid N (state_body s llr0 llr1 st g)" using wf wf1 by (simp add: sb)
  show "cell (state_body s llr0 llr1 st g) t q =
           (if t = s + 1 \<and> st div 2 = q mod 32
            then acs_cell (metric_at g s st \<noteq> NEG_INF) (candidate g s llr0 llr1 st (q div 32))
                   (uint8 (push_bit 1 st OR q div 32)) (cell g t q)
            else cell g t q)" if t: "t \<le> N" and q: "q < 64"
  proof (cases "metric_at g s st = NEG_INF")
    case True
    then show ?thesis by (simp add: sb acs_cell_def)
  next
    case False
    have c0: "cell ?g0 t q =
           (if t = s + 1 \<and> st div 2 = q mod 32 \<and> 0 = q div 32
            then acs_cell True (candidate g s llr0 llr1 st 0) (uint8 (push_bit 1 st OR 0)) (cell g t q)
            else cell g t q)"
      by (rule acs_cell_effect [OF wf s st _ t q]) simp
    have "s \<le> N" using s by simp
    then have "cell ?g0 s st = cell g s st"
      using acs_cell_effect [OF wf s st _ _ st, of 0 s llr0 llr1] by simp
    then have m: "metric_at ?g0 s st = metric_at g s st" by (simp add: cell_def)
    have c1: "cell ?g1 t q =
           (if t = s + 1 \<and> st div 2 = q mod 32 \<and> Suc 0 = q div 32
            then acs_cell True (candidate g s llr0 llr1 st (Suc 0)) (uint8 (push_bit 1 st OR Suc 0)) (cell ?g0 t q)
            else cell ?g0 t q)"
      using acs_cell_effect [OF wf0 s st _ t q, of "Suc 0" llr0 llr1] candidate_eq [OF m]
      by simp
    have sb': "state_body s llr0 llr1 st g = ?g1" using False by (simp add: sb)
    have act: "(metric_at g s st \<noteq> NEG_INF) = True" using False by simp
    let ?X = "acs_cell (metric_at g s st \<noteq> NEG_INF) (candidate g s llr0 llr1 st (q div 32))
                   (uint8 (push_bit 1 st OR q div 32)) (cell g t q)"
    show ?thesis
    proof (cases "t = s + 1 \<and> st div 2 = q mod 32")
      case no: False
      then have n0: "\<not> (t = s + 1 \<and> st div 2 = q mod 32 \<and> 0 = q div 32)"
        and n1: "\<not> (t = s + 1 \<and> st div 2 = q mod 32 \<and> Suc 0 = q div 32)" by blast+
      have a: "cell ?g1 t q = cell g t q"
        using trans [OF c1 if_not_P [OF n1]] trans [OF c0 if_not_P [OF n0]] by (rule trans)
      have b: "(if t = s + 1 \<and> st div 2 = q mod 32 then ?X else cell g t q) = cell g t q"
        by (rule if_not_P [OF no])
      have "cell (state_body s llr0 llr1 st g) t q = cell ?g1 t q" by (simp only: sb')
      also note a
      also note b [symmetric]
      finally show ?thesis .
    next
      case yes: True
      have rhs: "(if t = s + 1 \<and> st div 2 = q mod 32 then ?X else cell g t q) = ?X"
        by (rule if_P [OF yes])
      have "q div 32 = 0 \<or> q div 32 = Suc 0" using q by arith
      then show ?thesis
      proof
        assume z: "q div 32 = 0"
        have y0: "t = s + 1 \<and> st div 2 = q mod 32 \<and> 0 = q div 32" using yes z by simp
        have n1: "\<not> (t = s + 1 \<and> st div 2 = q mod 32 \<and> Suc 0 = q div 32)" using z by simp
        have a: "cell ?g1 t q = acs_cell True (candidate g s llr0 llr1 st 0) (uint8 (push_bit 1 st OR 0)) (cell g t q)"
          using trans [OF c1 if_not_P [OF n1]] trans [OF c0 if_P [OF y0]] by (rule trans)
        have b: "?X = acs_cell True (candidate g s llr0 llr1 st 0) (uint8 (push_bit 1 st OR 0)) (cell g t q)"
          by (simp only: z act)
        have "cell (state_body s llr0 llr1 st g) t q = cell ?g1 t q" by (simp only: sb')
        also note a
        also note b [symmetric]
        also note rhs [symmetric]
        finally show ?thesis .
      next
        assume z: "q div 32 = Suc 0"
        have n0: "\<not> (t = s + 1 \<and> st div 2 = q mod 32 \<and> 0 = q div 32)" using z by simp
        have y1: "t = s + 1 \<and> st div 2 = q mod 32 \<and> Suc 0 = q div 32" using yes z by simp
        have "cell ?g0 t q = cell g t q" by (rule trans [OF c0 if_not_P [OF n0]])
        then have a: "cell ?g1 t q = acs_cell True (candidate g s llr0 llr1 st (Suc 0))
              (uint8 (push_bit 1 st OR Suc 0)) (cell g t q)"
          using trans [OF c1 if_P [OF y1]] by simp
        have b: "?X = acs_cell True (candidate g s llr0 llr1 st (Suc 0))
              (uint8 (push_bit 1 st OR Suc 0)) (cell g t q)"
          by (simp only: z act)
        have "cell (state_body s llr0 llr1 st g) t q = cell ?g1 t q" by (simp only: sb')
        also note a
        also note b [symmetric]
        also note rhs [symmetric]
        finally show ?thesis .
      qed
    qed
  qed
qed

lemma fold_state_body_skip:
  fixes llr0 llr1 :: double
  assumes "wf_grid N g" "s < N" "\<forall>st \<in> set sts. st < 64"
  shows "wf_grid N (fold (state_body s llr0 llr1) sts g)"
    and "t \<le> N \<Longrightarrow> q < 64 \<Longrightarrow> t \<noteq> s + 1 \<or> (\<forall>st \<in> set sts. st div 2 \<noteq> q mod 32) \<Longrightarrow>
         cell (fold (state_body s llr0 llr1) sts g) t q = cell g t q"
  using assms
proof (induction sts arbitrary: g)
  case Nil
  {
    case 1
    then show ?case by simp
  next
    case 2
    then show ?case by simp
  }
next
  case (Cons st sts)
  {
    case 1
    then have "wf_grid N (state_body s llr0 llr1 st g)"
      using state_body_effect(1) [of N g s st] by simp
    with 1 show ?case using Cons.IH(1) [of "state_body s llr0 llr1 st g"] by simp
  next
    case 2
    then have wf': "wf_grid N (state_body s llr0 llr1 st g)"
      using state_body_effect(1) [of N g s st] by simp
    have "cell (fold (state_body s llr0 llr1) sts (state_body s llr0 llr1 st g)) t q =
          cell (state_body s llr0 llr1 st g) t q"
      using Cons.IH(2) [OF 2(1,2) _ wf'] 2 by auto
    also have "\<dots> = cell g t q"
      using state_body_effect(2) [of N g s st t q llr0 llr1] 2 by auto
    finally show ?case by simp
  }
qed

lemma metric_of_cell: "cell g' t q = cell g t q \<Longrightarrow> metric_at g' t q = metric_at g t q"
  by (simp add: cell_def)

lemma forward_stage_cell:
  assumes wf: "wf_grid N g" and s: "s < N" and t: "t \<le> N" and q: "q < 64"
  shows "cell (forward_stage llr s g) t q =
           (if t = s + 1
            then acs_cell (metric_at g s (Suc (2 * (q mod 32))) \<noteq> NEG_INF)
                   (candidate g s (llr (2 * s)) (llr (2 * s + 1)) (Suc (2 * (q mod 32))) (q div 32))
                   (uint8 (push_bit 1 (Suc (2 * (q mod 32))) OR q div 32))
                   (acs_cell (metric_at g s (2 * (q mod 32)) \<noteq> NEG_INF)
                      (candidate g s (llr (2 * s)) (llr (2 * s + 1)) (2 * (q mod 32)) (q div 32))
                      (uint8 (push_bit 1 (2 * (q mod 32)) OR q div 32))
                      (cell g t q))
            else cell g t q)"
proof -
  let ?l0 = "llr (2 * s)" and ?l1 = "llr (2 * s + 1)"
  let ?a = "2 * (q mod 32)"
  let ?F = "\<lambda>sts. fold (state_body s ?l0 ?l1) sts"
  have fs: "forward_stage llr s g = ?F [0..<64] g"
    by (simp add: forward_stage_def NUM_STATES_64 Let_def)
  have a64: "?a < 64" "Suc ?a < 64" by simp_all
  have all64: "\<forall>st \<in> set [i..<j]. st < 64" if "j \<le> 64" for i j using that by auto
  show ?thesis
  proof (cases "t = s + 1")
    case False
    then show ?thesis
      using fold_state_body_skip(2) [OF wf s all64 [of 64 0] t q, of ?l0 ?l1] by (simp add: fs)
  next
    case True
    have split: "[0..<64] = [0..<?a] @ ?a # Suc ?a # [Suc (Suc ?a)..<64]"
    proof -
      have "[0..<64] = [0..<?a] @ [?a..<64]"
        using upt_add_eq_append [of 0 ?a "64 - ?a"] a64 by simp
      also have "[?a..<64] = ?a # Suc ?a # [Suc (Suc ?a)..<64]"
        using a64 by (simp add: upt_conv_Cons)
      finally show ?thesis .
    qed
    let ?g1 = "?F [0..<?a] g"
    let ?g2 = "state_body s ?l0 ?l1 ?a ?g1"
    let ?g3 = "state_body s ?l0 ?l1 (Suc ?a) ?g2"
    have wf1: "wf_grid N ?g1" by (rule fold_state_body_skip(1) [OF wf s all64]) simp
    have wf2: "wf_grid N ?g2" by (rule state_body_effect(1) [OF wf1 s a64(1)])
    have wf3: "wf_grid N ?g3" by (rule state_body_effect(1) [OF wf2 s a64(2)])
    have sN: "s \<le> N" using s by simp
    have row1: "cell ?g1 s x = cell g s x" if "x < 64" for x
      by (rule fold_state_body_skip(2) [OF wf s all64 sN that]) simp_all
    have row2: "cell ?g2 s x = cell g s x" if "x < 64" for x
      using state_body_effect(2) [OF wf1 s a64(1) sN that, of ?l0 ?l1] row1 [OF that] by simp
    have c1: "cell ?g1 t q = cell g t q"
    proof (rule fold_state_body_skip(2) [OF wf s all64 t q])
      show "?a \<le> 64" by simp
      have "st div 2 \<noteq> q mod 32" if "st \<in> set [0..<?a]" for st
        using that by auto
      then show "t \<noteq> s + 1 \<or> (\<forall>st\<in>set [0..<?a]. st div 2 \<noteq> q mod 32)" by blast
    qed
    have c2: "cell ?g2 t q = acs_cell (metric_at g s ?a \<noteq> NEG_INF)
                      (candidate g s ?l0 ?l1 ?a (q div 32))
                      (uint8 (push_bit 1 ?a OR q div 32)) (cell g t q)"
      using state_body_effect(2) [OF wf1 s a64(1) t q, of ?l0 ?l1] True c1
        metric_of_cell [OF row1 [OF a64(1)]] candidate_eq [OF metric_of_cell [OF row1 [OF a64(1)]]]
      by simp
    have c3: "cell ?g3 t q = acs_cell (metric_at g s (Suc ?a) \<noteq> NEG_INF)
                      (candidate g s ?l0 ?l1 (Suc ?a) (q div 32))
                      (uint8 (push_bit 1 (Suc ?a) OR q div 32)) (cell ?g2 t q)"
      using state_body_effect(2) [OF wf2 s a64(2) t q, of ?l0 ?l1] True
        metric_of_cell [OF row2 [OF a64(2)]] candidate_eq [OF metric_of_cell [OF row2 [OF a64(2)]]]
      by simp
    have c4: "cell (?F [Suc (Suc ?a)..<64] ?g3) t q = cell ?g3 t q"
    proof (rule fold_state_body_skip(2) [OF wf3 s all64 t q])
      show "(64::nat) \<le> 64" by simp
      have "st div 2 \<noteq> q mod 32" if "st \<in> set [Suc (Suc ?a)..<64]" for st
        using that by auto
      then show "t \<noteq> s + 1 \<or> (\<forall>st\<in>set [Suc (Suc ?a)..<64]. st div 2 \<noteq> q mod 32)" by blast
    qed
    have "forward_stage llr s g = ?F [Suc (Suc ?a)..<64] ?g3"
      unfolding fs by (subst split) simp
    then show ?thesis using c4 c3 c2 True by simp
  qed
qed
























section \<open>The forward pass on arbitrary LLRs, and an amplitude that overflows\<close>





















section \<open>Tie-breaking in add-compare-select\<close>

text \<open>
  Claim C8. Add-compare-select leaves the grid as it is unless the candidate metric compares
  strictly greater than the incumbent, so an exact tie keeps the incumbent; a strictly greater
  candidate replaces metric and history. The two transitions into a state \<open>q\<close> come from the
  states \<open>2 * (q mod 32)\<close> and \<open>2 * (q mod 32) + 1\<close> (both with input \<open>q div 32\<close>), enumerated
  in this order; when both are reachable, their candidates tie and beat the incumbent, the stage
  leaves the lower state, the one enumerated first, as the survivor.
\<close>

theorem acs_keeps_incumbent_on_tie:
  fixes llr0 llr1 :: double and llr :: "nat \<Rightarrow> double"
  shows
  "(\<not> dgt (candidate g s llr0 llr1 st u) (metric_at g (s + 1) (step_state st u)) \<longrightarrow>
      acs s llr0 llr1 st u g = g)
   \<and> (candidate g s llr0 llr1 st u = metric_at g (s + 1) (step_state st u) \<longrightarrow>
      acs s llr0 llr1 st u g = g)
   \<and> (wf_grid N g \<and> s < N \<and> st < 64 \<and> u < 2
        \<and> dgt (candidate g s llr0 llr1 st u) (metric_at g (s + 1) (step_state st u)) \<longrightarrow>
      metric_at (acs s llr0 llr1 st u g) (s + 1) (step_state st u) = candidate g s llr0 llr1 st u
      \<and> history_at (acs s llr0 llr1 st u g) (s + 1) (step_state st u) = uint8 (push_bit 1 st OR u))
   \<and> (wf_grid N g \<and> s < N \<and> q < 64
        \<and> metric_at g s (2 * (q mod 32)) \<noteq> NEG_INF \<and> metric_at g s (Suc (2 * (q mod 32))) \<noteq> NEG_INF
        \<and> candidate g s (llr (2 * s)) (llr (2 * s + 1)) (Suc (2 * (q mod 32))) (q div 32)
            = candidate g s (llr (2 * s)) (llr (2 * s + 1)) (2 * (q mod 32)) (q div 32)
        \<and> dgt (candidate g s (llr (2 * s)) (llr (2 * s + 1)) (2 * (q mod 32)) (q div 32))
              (metric_at g (s + 1) q) \<longrightarrow>
      step_state (2 * (q mod 32)) (q div 32) = q \<and> step_state (Suc (2 * (q mod 32))) (q div 32) = q
      \<and> metric_at (forward_stage llr s g) (s + 1) q
           = candidate g s (llr (2 * s)) (llr (2 * s + 1)) (2 * (q mod 32)) (q div 32)
      \<and> history_at (forward_stage llr s g) (s + 1) q = uint8 (push_bit 1 (2 * (q mod 32)) OR q div 32))"
proof (intro conjI impI)
  assume "\<not> dgt (candidate g s llr0 llr1 st u) (metric_at g (s + 1) (step_state st u))"
  then show "acs s llr0 llr1 st u g = g"
    by (simp add: acs_def Let_def candidate_def metric_at_def step_state_def)
next
  assume "candidate g s llr0 llr1 st u = metric_at g (s + 1) (step_state st u)"
  then have "\<not> dgt (candidate g s llr0 llr1 st u) (metric_at g (s + 1) (step_state st u))"
    by (simp add: dgt_irrefl)
  then show "acs s llr0 llr1 st u g = g"
    by (simp add: acs_def Let_def candidate_def metric_at_def step_state_def)
next
  assume a: "wf_grid N g \<and> s < N \<and> st < 64 \<and> u < 2
        \<and> dgt (candidate g s llr0 llr1 st u) (metric_at g (s + 1) (step_state st u))"
  then have wf: "wf_grid N g" and s: "s < N" and st: "st < 64" and u: "u < 2" by simp_all
  have t: "s + 1 \<le> N" using s by simp
  have nx: "step_state st u < 64" using st u by (rule step_state_less)
  show "metric_at (acs s llr0 llr1 st u g) (s + 1) (step_state st u) = candidate g s llr0 llr1 st u"
    using acs_effect(2) [OF wf s st u t nx, of llr0 llr1] a by simp
  show "history_at (acs s llr0 llr1 st u g) (s + 1) (step_state st u) = uint8 (push_bit 1 st OR u)"
    using acs_effect(3) [OF wf s st u t nx, of llr0 llr1] a by simp
next
  let ?a = "2 * (q mod 32)"
  let ?cand = "candidate g s (llr (2 * s)) (llr (2 * s + 1))"
  assume a: "wf_grid N g \<and> s < N \<and> q < 64
        \<and> metric_at g s ?a \<noteq> NEG_INF \<and> metric_at g s (Suc ?a) \<noteq> NEG_INF
        \<and> ?cand (Suc ?a) (q div 32) = ?cand ?a (q div 32)
        \<and> dgt (?cand ?a (q div 32)) (metric_at g (s + 1) q)"
  then have wf: "wf_grid N g" and s: "s < N" and q: "q < 64" by simp_all
  have t: "s + 1 \<le> N" using s by simp
  have a64: "?a < 64" "Suc ?a < 64" by simp_all
  have u2: "q div 32 < 2" using q by simp
  show "step_state ?a (q div 32) = q"
    using step_state_hits [OF a64(1) u2 q] by simp
  show "step_state (Suc ?a) (q div 32) = q"
    using step_state_hits [OF a64(2) u2 q] by simp
  have c: "cell (forward_stage llr s g) (s + 1) q =
      acs_cell True (?cand ?a (q div 32)) (uint8 (push_bit 1 (Suc ?a) OR q div 32))
        (acs_cell True (?cand ?a (q div 32)) (uint8 (push_bit 1 ?a OR q div 32)) (cell g (s + 1) q))"
    using forward_stage_cell [OF wf s t q, of llr] a by simp
  have first: "acs_cell True (?cand ?a (q div 32)) (uint8 (push_bit 1 ?a OR q div 32)) (cell g (s + 1) q)
      = (?cand ?a (q div 32), uint8 (push_bit 1 ?a OR q div 32))"
    using a by (simp add: acs_cell_def cell_def)
  have "cell (forward_stage llr s g) (s + 1) q = (?cand ?a (q div 32), uint8 (push_bit 1 ?a OR q div 32))"
    unfolding c first by (simp add: acs_cell_def dgt_irrefl)
  then show "metric_at (forward_stage llr s g) (s + 1) q = ?cand ?a (q div 32)"
    and "history_at (forward_stage llr s g) (s + 1) q = uint8 (push_bit 1 ?a OR q div 32)"
    by (simp_all add: cell_def)
qed

lemma wf_two_rows:
  "wf_grid 1 fresh_grid" "wf_grid 1 level_grid"
  by (simp_all add: wf_grid_def fresh_grid_def level_grid_def le_Suc_eq nth_Cons')

lemma candidate_zero:
  "candidate fresh_grid 0 (Num 0) (Num 0) st u = Num 0"
  "candidate level_grid 0 (Num 0) (Num 0) st u = Num 0" if "st < 64"
  using that by (simp_all add: candidate_def branch_metric_def fresh_grid_def level_grid_def Let_def)

theorem acs_keeps_incumbent_on_tie_witness:
  "acs 0 (Num 0) (Num 0) 2 0 level_grid = level_grid
   \<and> metric_at (acs 0 (Num 0) (Num 0) 2 0 fresh_grid) 1 1 = Num 0
   \<and> history_at (acs 0 (Num 0) (Num 0) 2 0 fresh_grid) 1 1 = 4
   \<and> metric_at (forward_stage (ideal_llr (Num 0) zero_bits) 0 fresh_grid) 1 1 = Num 0
   \<and> history_at (forward_stage (ideal_llr (Num 0) zero_bits) 0 fresh_grid) 1 1 = 4"
proof -
  have z: "ideal_llr (Num 0) zero_bits = (\<lambda>i. Num 0)" by (simp add: ideal_llr_def fun_eq_iff)
  have s2: "step_state 2 0 = 1" using step_state_eq(1) [of 2] by simp
  have m: "metric_at level_grid (Suc 0) (Suc 0) = Num 0" "metric_at fresh_grid (Suc 0) (Suc 0) = NEG_INF"
    "metric_at fresh_grid 0 2 = Num 0" "metric_at fresh_grid 0 3 = Num 0"
    by (simp_all add: metric_at_def level_grid_def fresh_grid_def)
  have c: "uint8 4 = 4" by (simp add: uint8_def)
  have w: "wf_grid (Suc 0) fresh_grid" "wf_grid (Suc 0) level_grid" using wf_two_rows by simp_all
  show ?thesis
    using acs_keeps_incumbent_on_tie [of level_grid 0 "Num 0" "Num 0" 2 0 1 1 "\<lambda>i. Num 0"]
      acs_keeps_incumbent_on_tie [of fresh_grid 0 "Num 0" "Num 0" 2 0 1 1 "\<lambda>i. Num 0"]
    by (simp add: z s2 m c w candidate_zero NEG_INF_eq)
qed

section \<open>Modulator and demodulator\<close>

lemma fold_update_props:
  "length (fold (\<lambda>k s. s[k := f k]) [i..<n] xs) = length xs \<and>
   (\<forall>j < length xs. fold (\<lambda>k s. s[k := f k]) [i..<n] xs ! j = (if i \<le> j \<and> j < n then f j else xs ! j))"
proof (induction n)
  case 0
  show ?case by simp
next
  case (Suc n)
  show ?case
  proof (cases "i \<le> n")
    case True
    then have "[i..<Suc n] = [i..<n] @ [n]" by simp
    then have e: "fold (\<lambda>k s. s[k := f k]) [i..<Suc n] xs = (fold (\<lambda>k s. s[k := f k]) [i..<n] xs)[n := f n]"
      by simp
    show ?thesis unfolding e using Suc.IH True by (auto simp: nth_list_update less_Suc_eq)
  next
    case False
    then show ?thesis by auto
  qed
qed

lemma mod2_loop_fold:
  "mod2_loop bits n i syms =
     fold (\<lambda>k s. s[k := (if bits ! k then Complex (- 1) 0 else Complex 1 0)]) [i..<n] syms"
proof (induction bits n i syms rule: mod2_loop.induct)
  case (1 bits n i syms)
  show ?case
  proof (cases "i < n")
    case True
    have "mod2_loop bits n i syms =
          mod2_loop bits n (i + 1) (syms[i := (if bits ! i then Complex (- 1) 0 else Complex 1 0)])"
      by (subst mod2_loop.simps) (simp add: True)
    also note "1.IH" [OF True]
    finally show ?thesis using True by (simp add: upt_conv_Cons)
  next
    case False
    then show ?thesis by (subst mod2_loop.simps) simp
  qed
qed

lemma mod4_loop_fold:
  assumes "2 * n \<le> length bits"
  shows "mod4_loop bits n i syms =
     fold (\<lambda>k s. s[k := cmul (Complex (if bits ! (2 * k) then - 1 else 1)
                                       (if bits ! (2 * k + 1) then - 1 else 1)) scale_qpsk]) [i..<n] syms"
  using assms
proof (induction bits n i syms rule: mod4_loop.induct)
  case (1 bits n i syms)
  show ?case
  proof (cases "i < n")
    case True
    then have nb: "\<not> length bits \<le> 2 * i + 1" using "1.prems" by simp
    have "mod4_loop bits n i syms =
          mod4_loop bits n (i + 1) (syms[i := cmul (Complex (if bits ! (2 * i) then - 1 else 1)
                                       (if bits ! (2 * i + 1) then - 1 else 1)) scale_qpsk])"
      by (subst mod4_loop.simps) (simp only: True nb if_True if_False Let_def)
    also note "1.IH" [OF True nb refl refl "1.prems"]
    finally show ?thesis using True by (simp add: upt_conv_Cons)
  next
    case False
    then show ?thesis by (subst mod4_loop.simps) simp
  qed
qed

lemma mod16_loop_fold:
  assumes "4 * n \<le> length bits"
  shows "mod16_loop bits n i syms =
     fold (\<lambda>k s. s[k := cmul (Complex (get_level (bits ! (4 * k)) (bits ! (4 * k + 2)))
                          (get_level (bits ! (4 * k + 1)) (bits ! (4 * k + 3)))) scale_16qam]) [i..<n] syms"
  using assms
proof (induction bits n i syms rule: mod16_loop.induct)
  case (1 bits n i syms)
  show ?case
  proof (cases "i < n")
    case True
    then have nb: "\<not> length bits \<le> 4 * i + 3" using "1.prems" by simp
    have "mod16_loop bits n i syms =
          mod16_loop bits n (i + 1) (syms[i := cmul (Complex (get_level (bits ! (4 * i)) (bits ! (4 * i + 2)))
                          (get_level (bits ! (4 * i + 1)) (bits ! (4 * i + 3)))) scale_16qam])"
      by (subst mod16_loop.simps) (simp only: True nb if_True if_False Let_def)
    also note "1.IH" [OF True nb refl refl "1.prems"]
    finally show ?thesis using True by (simp add: upt_conv_Cons)
  next
    case False
    then show ?thesis by (subst mod16_loop.simps) simp
  qed
qed

lemma demod2_loop_fold:
  "demod2_loop symbols n i bits = fold (\<lambda>k s. s[k := (Re (symbols ! k) < 0)]) [i..<n] bits"
proof (induction symbols n i bits rule: demod2_loop.induct)
  case (1 symbols n i bits)
  show ?case
  proof (cases "i < n")
    case True
    have "demod2_loop symbols n i bits = demod2_loop symbols n (i + 1) (bits[i := (Re (symbols ! i) < 0)])"
      by (subst demod2_loop.simps) (simp add: True)
    also note "1.IH" [OF True]
    finally show ?thesis using True by (simp add: upt_conv_Cons)
  next
    case False
    then show ?thesis by (subst demod2_loop.simps) simp
  qed
qed

lemma demod4_loop_fold:
  assumes "2 * n \<le> length bits"
  shows "demod4_loop symbols n i bits =
     fold (\<lambda>k s. s[2 * k := (Re (cdiv (symbols ! k) scale_qpsk) < 0),
                    2 * k + 1 := (Im (cdiv (symbols ! k) scale_qpsk) < 0)]) [i..<n] bits"
  using assms
proof (induction symbols n i bits rule: demod4_loop.induct)
  case (1 symbols n i bits)
  show ?case
  proof (cases "i < n")
    case True
    then have nb: "\<not> length bits \<le> 2 * i + 1" using "1.prems" by simp
    let ?b = "bits[2 * i := (Re (cdiv (symbols ! i) scale_qpsk) < 0),
                    2 * i + 1 := (Im (cdiv (symbols ! i) scale_qpsk) < 0)]"
    have "demod4_loop symbols n i bits = demod4_loop symbols n (i + 1) ?b"
      by (subst demod4_loop.simps) (simp only: True nb if_True if_False Let_def)
    also have "\<dots> = fold (\<lambda>k s. s[2 * k := (Re (cdiv (symbols ! k) scale_qpsk) < 0),
                    2 * k + 1 := (Im (cdiv (symbols ! k) scale_qpsk) < 0)]) [i + 1..<n] ?b"
      by (rule "1.IH" [OF True nb refl refl refl]) (use "1.prems" in simp)
    finally show ?thesis using True by (simp add: upt_conv_Cons)
  next
    case False
    then show ?thesis by (subst demod4_loop.simps) simp
  qed
qed

lemma demod16_loop_fold:
  assumes "4 * n \<le> length bits"
  shows "demod16_loop symbols n i bits =
     fold (\<lambda>k s. s[4 * k := fst (level_to_bits (demod_level (Re (cdiv (symbols ! k) scale_16qam)))),
                    4 * k + 2 := snd (level_to_bits (demod_level (Re (cdiv (symbols ! k) scale_16qam)))),
                    4 * k + 1 := fst (level_to_bits (demod_level (Im (cdiv (symbols ! k) scale_16qam)))),
                    4 * k + 3 := snd (level_to_bits (demod_level (Im (cdiv (symbols ! k) scale_16qam))))])
       [i..<n] bits"
  using assms
proof (induction symbols n i bits rule: demod16_loop.induct)
  case (1 symbols n i bits)
  show ?case
  proof (cases "i < n")
    case True
    then have nb: "\<not> length bits \<le> 4 * i + 3" using "1.prems" by simp
    let ?b = "bits[4 * i := fst (level_to_bits (demod_level (Re (cdiv (symbols ! i) scale_16qam)))),
                    4 * i + 2 := snd (level_to_bits (demod_level (Re (cdiv (symbols ! i) scale_16qam)))),
                    4 * i + 1 := fst (level_to_bits (demod_level (Im (cdiv (symbols ! i) scale_16qam)))),
                    4 * i + 3 := snd (level_to_bits (demod_level (Im (cdiv (symbols ! i) scale_16qam))))]"
    have "demod16_loop symbols n i bits = demod16_loop symbols n (i + 1) ?b"
      by (subst demod16_loop.simps) (simp only: True nb if_True if_False Let_def)
    also have "\<dots> = fold (\<lambda>k s. s[4 * k := fst (level_to_bits (demod_level (Re (cdiv (symbols ! k) scale_16qam)))),
                    4 * k + 2 := snd (level_to_bits (demod_level (Re (cdiv (symbols ! k) scale_16qam)))),
                    4 * k + 1 := fst (level_to_bits (demod_level (Im (cdiv (symbols ! k) scale_16qam)))),
                    4 * k + 3 := snd (level_to_bits (demod_level (Im (cdiv (symbols ! k) scale_16qam))))])
       [i + 1..<n] ?b"
      by (rule "1.IH" [OF True nb refl refl refl refl refl refl refl]) (use "1.prems" in simp)
    finally show ?thesis using True by (simp add: upt_conv_Cons)
  next
    case False
    then show ?thesis by (subst demod16_loop.simps) simp
  qed
qed

lemma fold_update2_props:
  assumes "2 * n \<le> length xs"
  shows "length (fold (\<lambda>k s. s[2 * k := a k, 2 * k + 1 := b k]) [0..<n] xs) = length xs \<and>
   (\<forall>k < n. fold (\<lambda>k s. s[2 * k := a k, 2 * k + 1 := b k]) [0..<n] xs ! (2 * k) = a k \<and>
            fold (\<lambda>k s. s[2 * k := a k, 2 * k + 1 := b k]) [0..<n] xs ! (2 * k + 1) = b k)"
  using assms
proof (induction n)
  case 0
  show ?case by simp
next
  case (Suc n)
  let ?r = "fold (\<lambda>k s. s[2 * k := a k, 2 * k + 1 := b k]) [0..<n] xs"
  have e: "fold (\<lambda>k s. s[2 * k := a k, 2 * k + 1 := b k]) [0..<Suc n] xs = ?r[2 * n := a n, 2 * n + 1 := b n]"
    by simp
  have IH: "length ?r = length xs" "\<And>k. k < n \<Longrightarrow> ?r ! (2 * k) = a k \<and> ?r ! (2 * k + 1) = b k"
    using Suc by simp_all
  have len: "2 * n + 1 < length ?r" using Suc.prems IH(1) by simp
  show ?case unfolding e
  proof (intro conjI allI impI)
    show "length (?r[2 * n := a n, 2 * n + 1 := b n]) = length xs" using IH(1) by simp
  next
    fix k assume k: "k < Suc n"
    show "?r[2 * n := a n, 2 * n + 1 := b n] ! (2 * k) = a k"
      using k IH(2) [of k] len by (cases "k = n") (auto simp: nth_list_update)
    show "?r[2 * n := a n, 2 * n + 1 := b n] ! (2 * k + 1) = b k"
      using k IH(2) [of k] len by (cases "k = n") (auto simp: nth_list_update)
  qed
qed

lemma fold_update4_props:
  assumes "4 * n \<le> length xs"
  shows "length (fold (\<lambda>k s. s[4 * k := a k, 4 * k + 2 := b k, 4 * k + 1 := c k, 4 * k + 3 := d k]) [0..<n] xs)
           = length xs \<and>
   (\<forall>k < n.
      fold (\<lambda>k s. s[4 * k := a k, 4 * k + 2 := b k, 4 * k + 1 := c k, 4 * k + 3 := d k]) [0..<n] xs ! (4 * k) = a k \<and>
      fold (\<lambda>k s. s[4 * k := a k, 4 * k + 2 := b k, 4 * k + 1 := c k, 4 * k + 3 := d k]) [0..<n] xs ! (4 * k + 2) = b k \<and>
      fold (\<lambda>k s. s[4 * k := a k, 4 * k + 2 := b k, 4 * k + 1 := c k, 4 * k + 3 := d k]) [0..<n] xs ! (4 * k + 1) = c k \<and>
      fold (\<lambda>k s. s[4 * k := a k, 4 * k + 2 := b k, 4 * k + 1 := c k, 4 * k + 3 := d k]) [0..<n] xs ! (4 * k + 3) = d k)"
  using assms
proof (induction n)
  case 0
  show ?case by simp
next
  case (Suc n)
  let ?F = "\<lambda>k s. s[4 * k := a k, 4 * k + 2 := b k, 4 * k + 1 := c k, 4 * k + 3 := d k]"
  let ?r = "fold ?F [0..<n] xs"
  have e: "fold ?F [0..<Suc n] xs = ?r[4 * n := a n, 4 * n + 2 := b n, 4 * n + 1 := c n, 4 * n + 3 := d n]"
    by simp
  have IH: "length ?r = length xs"
    "\<And>k. k < n \<Longrightarrow> ?r ! (4 * k) = a k \<and> ?r ! (4 * k + 2) = b k \<and> ?r ! (4 * k + 1) = c k \<and> ?r ! (4 * k + 3) = d k"
    using Suc by simp_all
  have len: "4 * n + 3 < length ?r" using Suc.prems IH(1) by simp
  show ?case unfolding e
  proof (intro conjI allI impI)
    show "length (?r[4 * n := a n, 4 * n + 2 := b n, 4 * n + 1 := c n, 4 * n + 3 := d n]) = length xs"
      using IH(1) by simp
  next
    fix k assume k: "k < Suc n"
    show "?r[4 * n := a n, 4 * n + 2 := b n, 4 * n + 1 := c n, 4 * n + 3 := d n] ! (4 * k) = a k"
      using k IH(2) [of k] len by (cases "k = n") (auto simp: nth_list_update)
    show "?r[4 * n := a n, 4 * n + 2 := b n, 4 * n + 1 := c n, 4 * n + 3 := d n] ! (4 * k + 2) = b k"
      using k IH(2) [of k] len by (cases "k = n") (auto simp: nth_list_update)
    show "?r[4 * n := a n, 4 * n + 2 := b n, 4 * n + 1 := c n, 4 * n + 3 := d n] ! (4 * k + 1) = c k"
      using k IH(2) [of k] len by (cases "k = n") (auto simp: nth_list_update)
    show "?r[4 * n := a n, 4 * n + 2 := b n, 4 * n + 1 := c n, 4 * n + 3 := d n] ! (4 * k + 3) = d k"
      using k IH(2) [of k] len by (cases "k = n") (auto simp: nth_list_update)
  qed
qed

lemma bits_per_sym_of_valid [simp]:
  "bits_per_sym_of 2 = 1" "bits_per_sym_of 4 = 2" "bits_per_sym_of 16 = 4"
  by (simp_all add: bits_per_sym_of_def compute_floorlog)

lemma is_valid_mod_order_iff: "is_valid_mod_order m \<longleftrightarrow> m = 2 \<or> m = 4 \<or> m = 16"
  by (auto simp: is_valid_mod_order_def valid_mod_orders_def)

lemma scales_pos: "0 < scale_qpsk" "0 < scale_16qam"
  by (simp_all add: scale_qpsk_def scale_16qam_def M_SQRT2_INV_def M_SQRT10_INV_def)

lemma cdiv_cmul: "r \<noteq> 0 \<Longrightarrow> cdiv (cmul z r) r = z"
  by (simp add: cdiv_def cmul_def)

lemma get_level_simps:
  "get_level False False = 3" "get_level False True = 1"
  "get_level True False = - 3" "get_level True True = - 1"
  by (simp_all add: get_level_def qam_levels_def)

lemma ceiling_minus_one_real: "\<lceil>- 1 :: real\<rceil> = - 1"
  using ceiling_of_int [of "- 1", where ?'a = real] by simp

lemma level_round_trip: "level_to_bits (demod_level (get_level msb lsb)) = (msb, lsb)"
  by (cases msb; cases lsb)
    (simp_all add: get_level_simps demod_level_def level_to_bits_def trunc_int_def Let_def
       ceiling_minus_one_real)

lemma modulate_2:
  assumes "bits \<noteq> []"
  shows "length (modulate bits 2) = length bits"
    and "j < length bits \<Longrightarrow> modulate bits 2 ! j = (if bits ! j then Complex (- 1) 0 else Complex 1 0)"
proof -
  have m: "modulate bits 2 = fold (\<lambda>k s. s[k := (if bits ! k then Complex (- 1) 0 else Complex 1 0)])
             [0..<length bits] (replicate (length bits) 0)"
    using assms
    by (simp add: modulate_def try_modulate_def is_valid_mod_order_iff modulate_impl_def Let_def
        mod2_loop_fold Suc_leI)
  let ?f = "\<lambda>k. if bits ! k then Complex (- 1) 0 else Complex 1 0"
  show "length (modulate bits 2) = length bits"
    unfolding m using fold_update_props [of ?f 0 "length bits" "replicate (length bits) 0"] by simp
  show "modulate bits 2 ! j = (if bits ! j then Complex (- 1) 0 else Complex 1 0)" if "j < length bits"
    unfolding m using that fold_update_props [of ?f 0 "length bits" "replicate (length bits) 0"] by simp
qed

lemma modulate_4:
  assumes "bits \<noteq> []" "length bits mod 2 = 0"
  shows "length (modulate bits 4) = length bits div 2"
    and "j < length bits div 2 \<Longrightarrow> modulate bits 4 ! j =
           cmul (Complex (if bits ! (2 * j) then - 1 else 1) (if bits ! (2 * j + 1) then - 1 else 1)) scale_qpsk"
proof -
  let ?n = "length bits div 2"
  have n1: "2 * ?n = length bits" using assms(2) by (simp add: mod_eq_0_iff_dvd)
  have "0 < length bits" using assms(1) by simp
  then have n2: "0 < ?n" using n1 by (cases "?n = 0") simp_all
  then have n3: "2 \<le> length bits" using n1 by linarith
  note n = n1 n2 n3
  have m: "modulate bits 4 = fold (\<lambda>k s. s[k := cmul (Complex (if bits ! (2 * k) then - 1 else 1)
                                       (if bits ! (2 * k + 1) then - 1 else 1)) scale_qpsk])
             [0..<?n] (replicate ?n 0)"
    using n
    by (simp add: modulate_def try_modulate_def is_valid_mod_order_iff modulate_impl_def Let_def
        mod4_loop_fold)
  let ?f = "\<lambda>k. cmul (Complex (if bits ! (2 * k) then - 1 else 1)
                                       (if bits ! (2 * k + 1) then - 1 else 1)) scale_qpsk"
  show "length (modulate bits 4) = ?n"
    unfolding m using fold_update_props [of ?f 0 ?n "replicate ?n 0"] by simp
  show "modulate bits 4 ! j =
           cmul (Complex (if bits ! (2 * j) then - 1 else 1) (if bits ! (2 * j + 1) then - 1 else 1)) scale_qpsk"
    if "j < ?n"
    unfolding m using that fold_update_props [of ?f 0 ?n "replicate ?n 0"] by simp
qed

lemma modulate_16:
  assumes "bits \<noteq> []" "length bits mod 4 = 0"
  shows "length (modulate bits 16) = length bits div 4"
    and "j < length bits div 4 \<Longrightarrow> modulate bits 16 ! j =
           cmul (Complex (get_level (bits ! (4 * j)) (bits ! (4 * j + 2)))
                          (get_level (bits ! (4 * j + 1)) (bits ! (4 * j + 3)))) scale_16qam"
proof -
  let ?n = "length bits div 4"
  have n1: "4 * ?n = length bits" using assms(2) by (simp add: mod_eq_0_iff_dvd)
  have "0 < length bits" using assms(1) by simp
  then have n2: "0 < ?n" using n1 by (cases "?n = 0") simp_all
  then have n3: "4 \<le> length bits" using n1 by linarith
  note n = n1 n2 n3
  have m: "modulate bits 16 = fold (\<lambda>k s. s[k := cmul (Complex (get_level (bits ! (4 * k)) (bits ! (4 * k + 2)))
                          (get_level (bits ! (4 * k + 1)) (bits ! (4 * k + 3)))) scale_16qam])
             [0..<?n] (replicate ?n 0)"
    using n
    by (simp add: modulate_def try_modulate_def is_valid_mod_order_iff modulate_impl_def Let_def
        mod16_loop_fold)
  let ?f = "\<lambda>k. cmul (Complex (get_level (bits ! (4 * k)) (bits ! (4 * k + 2)))
                          (get_level (bits ! (4 * k + 1)) (bits ! (4 * k + 3)))) scale_16qam"
  show "length (modulate bits 16) = ?n"
    unfolding m using fold_update_props [of ?f 0 ?n "replicate ?n 0"] by simp
  show "modulate bits 16 ! j =
           cmul (Complex (get_level (bits ! (4 * j)) (bits ! (4 * j + 2)))
                          (get_level (bits ! (4 * j + 1)) (bits ! (4 * j + 3)))) scale_16qam"
    if "j < ?n"
    unfolding m using that fold_update_props [of ?f 0 ?n "replicate ?n 0"] by simp
qed

lemma modulate_empty: "is_valid_mod_order m \<Longrightarrow> modulate [] m = []"
  by (auto simp: modulate_def try_modulate_def is_valid_mod_order_iff)

lemma demodulate_empty: "demodulate [] m = []"
  by (simp add: demodulate_def)

lemma demodulate_2:
  assumes "symbols \<noteq> []"
  shows "length (demodulate symbols 2) = length symbols"
    and "j < length symbols \<Longrightarrow> demodulate symbols 2 ! j = (Re (symbols ! j) < 0)"
proof -
  let ?n = "length symbols"
  let ?f = "\<lambda>k. Re (symbols ! k) < 0"
  have m: "demodulate symbols 2 = fold (\<lambda>k s. s[k := ?f k]) [0..<?n] (replicate ?n False)"
    using assms by (simp add: demodulate_def Let_def demod2_loop_fold)
  show "length (demodulate symbols 2) = ?n"
    unfolding m using fold_update_props [of ?f 0 ?n "replicate ?n False"] by simp
  show "demodulate symbols 2 ! j = (Re (symbols ! j) < 0)" if "j < ?n"
    unfolding m using that fold_update_props [of ?f 0 ?n "replicate ?n False"] by simp
qed

lemma demodulate_4:
  assumes "symbols \<noteq> []"
  shows "length (demodulate symbols 4) = 2 * length symbols"
    and "k < length symbols \<Longrightarrow>
           demodulate symbols 4 ! (2 * k) = (Re (cdiv (symbols ! k) scale_qpsk) < 0) \<and>
           demodulate symbols 4 ! (2 * k + 1) = (Im (cdiv (symbols ! k) scale_qpsk) < 0)"
proof -
  let ?n = "length symbols"
  let ?a = "\<lambda>k. Re (cdiv (symbols ! k) scale_qpsk) < 0"
  let ?b = "\<lambda>k. Im (cdiv (symbols ! k) scale_qpsk) < 0"
  let ?xs = "replicate (?n * 2) False"
  have l: "2 * ?n \<le> length ?xs" by simp
  have m: "demodulate symbols 4 = fold (\<lambda>k s. s[2 * k := ?a k, 2 * k + 1 := ?b k]) [0..<?n] ?xs"
    using assms by (simp add: demodulate_def Let_def demod4_loop_fold)
  show "length (demodulate symbols 4) = 2 * ?n"
    unfolding m using fold_update2_props [OF l, of ?a ?b] by simp
  show "demodulate symbols 4 ! (2 * k) = ?a k \<and> demodulate symbols 4 ! (2 * k + 1) = ?b k" if "k < ?n"
    unfolding m using that fold_update2_props [OF l, of ?a ?b] by blast
qed

lemma demodulate_16:
  assumes "symbols \<noteq> []"
  shows "length (demodulate symbols 16) = 4 * length symbols"
    and "k < length symbols \<Longrightarrow>
           demodulate symbols 16 ! (4 * k) = fst (level_to_bits (demod_level (Re (cdiv (symbols ! k) scale_16qam)))) \<and>
           demodulate symbols 16 ! (4 * k + 2) = snd (level_to_bits (demod_level (Re (cdiv (symbols ! k) scale_16qam)))) \<and>
           demodulate symbols 16 ! (4 * k + 1) = fst (level_to_bits (demod_level (Im (cdiv (symbols ! k) scale_16qam)))) \<and>
           demodulate symbols 16 ! (4 * k + 3) = snd (level_to_bits (demod_level (Im (cdiv (symbols ! k) scale_16qam))))"
proof -
  let ?n = "length symbols"
  let ?a = "\<lambda>k. fst (level_to_bits (demod_level (Re (cdiv (symbols ! k) scale_16qam))))"
  let ?b = "\<lambda>k. snd (level_to_bits (demod_level (Re (cdiv (symbols ! k) scale_16qam))))"
  let ?c = "\<lambda>k. fst (level_to_bits (demod_level (Im (cdiv (symbols ! k) scale_16qam))))"
  let ?d = "\<lambda>k. snd (level_to_bits (demod_level (Im (cdiv (symbols ! k) scale_16qam))))"
  let ?xs = "replicate (?n * 4) False"
  have l: "4 * ?n \<le> length ?xs" by simp
  have m: "demodulate symbols 16 =
      fold (\<lambda>k s. s[4 * k := ?a k, 4 * k + 2 := ?b k, 4 * k + 1 := ?c k, 4 * k + 3 := ?d k]) [0..<?n] ?xs"
    using assms by (simp add: demodulate_def Let_def demod16_loop_fold)
  show "length (demodulate symbols 16) = 4 * ?n"
    unfolding m using fold_update4_props [OF l, of ?a ?b ?c ?d] by simp
  show "demodulate symbols 16 ! (4 * k) = ?a k \<and> demodulate symbols 16 ! (4 * k + 2) = ?b k \<and>
        demodulate symbols 16 ! (4 * k + 1) = ?c k \<and> demodulate symbols 16 ! (4 * k + 3) = ?d k" if "k < ?n"
    unfolding m using that fold_update4_props [OF l, of ?a ?b ?c ?d] by blast
qed

lemma round_trip_2: "demodulate (modulate B 2) 2 = B"
proof (cases "B = []")
  case True
  then show ?thesis by (simp add: modulate_empty is_valid_mod_order_iff demodulate_empty)
next
  case False
  let ?S = "modulate B 2"
  have ls: "length ?S = length B" using modulate_2(1) [OF False] .
  then have ne: "?S \<noteq> []" using False by auto
  show ?thesis
  proof (rule nth_equalityI)
    show "length (demodulate ?S 2) = length B" using demodulate_2(1) [OF ne] ls by simp
  next
    fix j assume "j < length (demodulate ?S 2)"
    then have j: "j < length B" using demodulate_2(1) [OF ne] ls by simp
    then have "demodulate ?S 2 ! j = (Re (?S ! j) < 0)" using demodulate_2(2) [OF ne] ls by simp
    also have "\<dots> = B ! j" using modulate_2(2) [OF False j] by simp
    finally show "demodulate ?S 2 ! j = B ! j" .
  qed
qed

lemma round_trip_4:
  assumes "length B mod 2 = 0"
  shows "demodulate (modulate B 4) 4 = B"
proof (cases "B = []")
  case True
  then show ?thesis by (simp add: modulate_empty is_valid_mod_order_iff demodulate_empty)
next
  case False
  let ?S = "modulate B 4"
  let ?n = "length B div 2"
  have n: "2 * ?n = length B" using assms by (simp add: mod_eq_0_iff_dvd)
  have ls: "length ?S = ?n" using modulate_4(1) [OF False assms] .
  have ne: "?S \<noteq> []" using False ls n by auto
  have s0: "scale_qpsk \<noteq> 0" using scales_pos by simp
  have sym: "cdiv (?S ! k) scale_qpsk =
      Complex (if B ! (2 * k) then - 1 else 1) (if B ! (2 * k + 1) then - 1 else 1)" if "k < ?n" for k
    using modulate_4(2) [OF False assms that] cdiv_cmul [OF s0] by simp
  show ?thesis
  proof (rule nth_equalityI)
    show "length (demodulate ?S 4) = length B" using demodulate_4(1) [OF ne] ls n by simp
  next
    fix j assume "j < length (demodulate ?S 4)"
    then have j: "j < length B" using demodulate_4(1) [OF ne] ls n by simp
    then have k: "j div 2 < ?n" using n by (simp add: less_mult_imp_div_less mult.commute)
    have d: "demodulate ?S 4 ! (2 * (j div 2)) = B ! (2 * (j div 2))"
      "demodulate ?S 4 ! (2 * (j div 2) + 1) = B ! (2 * (j div 2) + 1)"
      using demodulate_4(2) [OF ne, of "j div 2"] k ls sym [OF k] by simp_all
    have "j = 2 * (j div 2) \<or> j = 2 * (j div 2) + 1" by presburger
    then show "demodulate ?S 4 ! j = B ! j" using d by metis
  qed
qed

lemma round_trip_16:
  assumes "length B mod 4 = 0"
  shows "demodulate (modulate B 16) 16 = B"
proof (cases "B = []")
  case True
  then show ?thesis by (simp add: modulate_empty is_valid_mod_order_iff demodulate_empty)
next
  case False
  let ?S = "modulate B 16"
  let ?n = "length B div 4"
  have n: "4 * ?n = length B" using assms by (simp add: mod_eq_0_iff_dvd)
  have ls: "length ?S = ?n" using modulate_16(1) [OF False assms] .
  have ne: "?S \<noteq> []" using False ls n by auto
  have s0: "scale_16qam \<noteq> 0" using scales_pos by simp
  have sym: "cdiv (?S ! k) scale_16qam =
      Complex (get_level (B ! (4 * k)) (B ! (4 * k + 2))) (get_level (B ! (4 * k + 1)) (B ! (4 * k + 3)))"
    if "k < ?n" for k
    using modulate_16(2) [OF False assms that] cdiv_cmul [OF s0] by simp
  show ?thesis
  proof (rule nth_equalityI)
    show "length (demodulate ?S 16) = length B" using demodulate_16(1) [OF ne] ls n by simp
  next
    fix j assume "j < length (demodulate ?S 16)"
    then have j: "j < length B" using demodulate_16(1) [OF ne] ls n by simp
    then have k: "j div 4 < ?n" using n by (simp add: less_mult_imp_div_less mult.commute)
    have d: "demodulate ?S 16 ! (4 * (j div 4)) = B ! (4 * (j div 4))"
      "demodulate ?S 16 ! (4 * (j div 4) + 2) = B ! (4 * (j div 4) + 2)"
      "demodulate ?S 16 ! (4 * (j div 4) + 1) = B ! (4 * (j div 4) + 1)"
      "demodulate ?S 16 ! (4 * (j div 4) + 3) = B ! (4 * (j div 4) + 3)"
      using demodulate_16(2) [OF ne, of "j div 4"] k ls sym [OF k] by (simp_all add: level_round_trip)
    have "j = 4 * (j div 4) \<or> j = 4 * (j div 4) + 1 \<or> j = 4 * (j div 4) + 2 \<or> j = 4 * (j div 4) + 3"
      by presburger
    then show "demodulate ?S 16 ! j = B ! j" using d by metis
  qed
qed

text \<open>
  Claim C1. For a modulation order in \<open>{2, 4, 16}\<close> and a bit sequence whose length is a
  multiple of the bits per symbol, demodulating the modulated sequence gives the sequence back
  (over the reals: the symbols are scaled and unscaled exactly).
\<close>

theorem demodulate_modulate:
  assumes "M = 2 \<or> M = 4 \<or> M = 16" and "length B mod bits_per_sym_of M = 0"
  shows "demodulate (modulate B M) M = B"
  using assms round_trip_2 [of B] round_trip_4 [of B] round_trip_16 [of B] by auto

theorem demodulate_modulate_witness:
  "demodulate (modulate [False, True] 2) 2 = [False, True]
   \<and> demodulate (modulate [False, False, True, True] 4) 4 = [False, False, True, True]
   \<and> demodulate (modulate [False, False, False, False] 16) 16 = [False, False, False, False]"
  using demodulate_modulate [of 2 "[False, True]"]
    demodulate_modulate [of 4 "[False, False, True, True]"]
    demodulate_modulate [of 16 "[False, False, False, False]"]
  by simp

section \<open>Uncoded drivers\<close>

lemma count_errors_bounds: "0 \<le> count_errors bits rx_bits \<and> count_errors bits rx_bits \<le> int (length bits)"
proof -
  have "0 \<le> sum_list (map (\<lambda>i. if P i then 1 else 0 :: int) xs) \<and>
        sum_list (map (\<lambda>i. if P i then 1 else 0 :: int) xs) \<le> int (length xs)" for P and xs :: "nat list"
    by (induction xs) auto
  from this [of "\<lambda>i. bits ! i \<noteq> rx_bits ! i" "[0..<length bits]"] show ?thesis
    by (simp add: count_errors_def)
qed

lemma uncoded_trial_range:
  assumes "0 < n"
  shows "0 \<le> uncoded_trial bit_gen noise_gen drawn mod_order snr_db n"
    and "uncoded_trial bit_gen noise_gen drawn mod_order snr_db n \<le> 1"
    and "\<exists>e. 0 \<le> e \<and> e \<le> n \<and>
           uncoded_trial bit_gen noise_gen drawn mod_order snr_db n = real_of_int e / real_of_int n"
proof -
  let ?bits = "map (bit_draw bit_gen) [0..<nat n]"
  obtain rx where u: "uncoded_trial bit_gen noise_gen drawn mod_order snr_db n =
      real_of_int (count_errors ?bits rx) / real_of_int n"
    unfolding uncoded_trial_def Let_def by blast
  let ?e = "count_errors ?bits rx"
  have e: "0 \<le> ?e" "?e \<le> n" using count_errors_bounds [of ?bits rx] assms by simp_all
  show "0 \<le> uncoded_trial bit_gen noise_gen drawn mod_order snr_db n"
    unfolding u using e assms by simp
  show "uncoded_trial bit_gen noise_gen drawn mod_order snr_db n \<le> 1"
    unfolding u using e assms by simp
  show "\<exists>e. 0 \<le> e \<and> e \<le> n \<and>
           uncoded_trial bit_gen noise_gen drawn mod_order snr_db n = real_of_int e / real_of_int n"
    using u e by blast
qed

lemma compute_ber_runs:
  assumes "mod_order = 2 \<or> mod_order = 4 \<or> mod_order = 16" and "- 50 \<le> snr_db" "snr_db \<le> 50"
    and "0 < adjust_num_bits num_bits mod_order" "adjust_num_bits num_bits mod_order \<le> 100000000"
  shows "\<exists>bit_gen gen. fst (compute_ber lib mod_order snr_db num_bits w) =
           uncoded_trial bit_gen gen 0 mod_order snr_db (adjust_num_bits num_bits mod_order)"
  using assms by (auto simp: compute_ber_def Let_def split: prod.splits)

text \<open>
  Claim C3, as amended. The checks of \<open>compute_ber\<close> in their order: an order outside
  \<open>{2, 4, 16}\<close> gives \<open>-1\<close>; an SNR outside \<open>[-50, 50]\<close> gives \<open>-1\<close>; otherwise, with
  \<open>N\<close> the bit count rounded towards zero to a multiple of the bits per symbol, \<open>N \<le> 0\<close> gives
  \<open>0\<close>, \<open>N > 10^8\<close> gives \<open>-1\<close>, and any other \<open>N\<close> gives \<open>errors / N\<close> with
  \<open>0 \<le> errors \<le> N\<close>, a value in \<open>[0, 1]\<close>.
\<close>

theorem compute_ber_result:
  "(mod_order \<noteq> 2 \<and> mod_order \<noteq> 4 \<and> mod_order \<noteq> 16 \<longrightarrow>
      fst (compute_ber lib mod_order snr_db num_bits w) = - 1)
   \<and> (snr_db < - 50 \<or> snr_db > 50 \<longrightarrow> fst (compute_ber lib mod_order snr_db num_bits w) = - 1)
   \<and> ((mod_order = 2 \<or> mod_order = 4 \<or> mod_order = 16) \<and> - 50 \<le> snr_db \<and> snr_db \<le> 50 \<longrightarrow>
        (adjust_num_bits num_bits mod_order \<le> 0 \<longrightarrow>
           fst (compute_ber lib mod_order snr_db num_bits w) = 0)
        \<and> (adjust_num_bits num_bits mod_order > 100000000 \<longrightarrow>
           fst (compute_ber lib mod_order snr_db num_bits w) = - 1)
        \<and> (0 < adjust_num_bits num_bits mod_order \<and> adjust_num_bits num_bits mod_order \<le> 100000000 \<longrightarrow>
           0 \<le> fst (compute_ber lib mod_order snr_db num_bits w)
           \<and> fst (compute_ber lib mod_order snr_db num_bits w) \<le> 1
           \<and> (\<exists>errors. 0 \<le> errors \<and> errors \<le> adjust_num_bits num_bits mod_order \<and>
                 fst (compute_ber lib mod_order snr_db num_bits w) =
                   real_of_int errors / real_of_int (adjust_num_bits num_bits mod_order))))"
proof (intro conjI impI)
  assume "mod_order \<noteq> 2 \<and> mod_order \<noteq> 4 \<and> mod_order \<noteq> 16"
  then show "fst (compute_ber lib mod_order snr_db num_bits w) = - 1"
    by (simp add: compute_ber_def)
next
  assume "snr_db < - 50 \<or> snr_db > 50"
  then show "fst (compute_ber lib mod_order snr_db num_bits w) = - 1"
    by (auto simp: compute_ber_def)
next
  assume "(mod_order = 2 \<or> mod_order = 4 \<or> mod_order = 16) \<and> - 50 \<le> snr_db \<and> snr_db \<le> 50"
    and "adjust_num_bits num_bits mod_order \<le> 0"
  then show "fst (compute_ber lib mod_order snr_db num_bits w) = 0"
    by (auto simp: compute_ber_def Let_def)
next
  assume "(mod_order = 2 \<or> mod_order = 4 \<or> mod_order = 16) \<and> - 50 \<le> snr_db \<and> snr_db \<le> 50"
    and "adjust_num_bits num_bits mod_order > 100000000"
  then show "fst (compute_ber lib mod_order snr_db num_bits w) = - 1"
    by (auto simp: compute_ber_def Let_def)
next
  assume a: "(mod_order = 2 \<or> mod_order = 4 \<or> mod_order = 16) \<and> - 50 \<le> snr_db \<and> snr_db \<le> 50"
    and b: "0 < adjust_num_bits num_bits mod_order \<and> adjust_num_bits num_bits mod_order \<le> 100000000"
  then obtain bit_gen gen where r: "fst (compute_ber lib mod_order snr_db num_bits w) =
           uncoded_trial bit_gen gen 0 mod_order snr_db (adjust_num_bits num_bits mod_order)"
    using compute_ber_runs [of mod_order snr_db num_bits lib w] by blast
  have n: "0 < adjust_num_bits num_bits mod_order" using b by simp
  show "0 \<le> fst (compute_ber lib mod_order snr_db num_bits w)"
    unfolding r by (rule uncoded_trial_range(1) [OF n])
  show "fst (compute_ber lib mod_order snr_db num_bits w) \<le> 1"
    unfolding r by (rule uncoded_trial_range(2) [OF n])
  show "\<exists>errors. 0 \<le> errors \<and> errors \<le> adjust_num_bits num_bits mod_order \<and>
                 fst (compute_ber lib mod_order snr_db num_bits w) =
                   real_of_int errors / real_of_int (adjust_num_bits num_bits mod_order)"
    unfolding r by (rule uncoded_trial_range(3) [OF n])
qed

lemma adjust_num_bits_eval:
  "adjust_num_bits 100000001 4 = 100000000" "adjust_num_bits 100 2 = 100"
  "adjust_num_bits 0 2 = 0" "adjust_num_bits 100000001 2 = 100000001" "adjust_num_bits 7 4 = 6"
  by (simp_all add: adjust_num_bits_def signed_modulo_int_def)

theorem compute_ber_result_witness:
  "fst (compute_ber null_lib 3 0 100 null_world) = - 1
   \<and> fst (compute_ber null_lib 2 60 100 null_world) = - 1
   \<and> fst (compute_ber null_lib 2 0 0 null_world) = 0
   \<and> fst (compute_ber null_lib 2 0 100000001 null_world) = - 1
   \<and> 0 \<le> fst (compute_ber null_lib 4 0 7 null_world)
   \<and> fst (compute_ber null_lib 4 0 7 null_world) \<le> 1"
  using compute_ber_result [of 3 null_lib 0 100 null_world]
    compute_ber_result [of 2 null_lib 60 100 null_world]
    compute_ber_result [of 2 null_lib 0 0 null_world]
    compute_ber_result [of 2 null_lib 0 100000001 null_world]
    compute_ber_result [of 4 null_lib 0 7 null_world]
  by (simp add: adjust_num_bits_eval)

text \<open>
  Claim C3 as stated fails at the cap: the cap is compared with the rounded count, so the
  argument \<open>10^8 + 1\<close> at order 4 is rounded to \<open>10^8\<close> and simulated.
\<close>

theorem compute_ber_cap_after_rounding:
  "fst (compute_ber null_lib 4 0 100000001 null_world) \<noteq> - 1"
proof -
  obtain bit_gen gen where r: "fst (compute_ber null_lib 4 0 100000001 null_world) =
           uncoded_trial bit_gen gen 0 4 0 (adjust_num_bits 100000001 4)"
    using compute_ber_runs [of 4 0 100000001 null_lib null_world] by (auto simp: adjust_num_bits_eval)
  have "0 \<le> fst (compute_ber null_lib 4 0 100000001 null_world)"
    unfolding r adjust_num_bits_eval by (rule uncoded_trial_range(1)) simp
  then show ?thesis by simp
qed

text \<open>
  Claim C9. The seeded driver reads no entropy and leaves the world as it is: its result is
  the same in every world, in particular in the world a first call leaves behind, so it is a
  function of the order, the SNR, the bit count and the seed (and of the library's generator).
  \<open>compute_ber_reads_entropy\<close> below shows that the unseeded driver is not.
\<close>

theorem compute_ber_seeded_deterministic:
  "fst (compute_ber_seeded lib mod_order snr_db num_bits seed w) =
     fst (compute_ber_seeded lib mod_order snr_db num_bits seed w')
   \<and> snd (compute_ber_seeded lib mod_order snr_db num_bits seed w) = w
   \<and> fst (compute_ber_seeded lib mod_order snr_db num_bits seed
            (snd (compute_ber_seeded lib mod_order snr_db num_bits seed w))) =
       fst (compute_ber_seeded lib mod_order snr_db num_bits seed w)"
  by (simp add: compute_ber_seeded_def Let_def)

section \<open>Coded driver\<close>

lemma viterbi_decode_ok:
  assumes "0 < c"
  shows "status (viterbi_decode (Some llr) (2 * (c + 6)) (Some db) (Some dl)) = 0"
    and "out_len (viterbi_decode (Some llr) (2 * (c + 6)) (Some db) (Some dl)) = Some c"
proof -
  have len: "0 < 2 * (c + 6)" "(2 * (c + 6)) smod 2 = 0" "(2 * (c + 6)) sdiv 2 = c + 6"
    using assms by (simp_all add: signed_modulo_int_def signed_divide_int_def sgn_if)
  show "status (viterbi_decode (Some llr) (2 * (c + 6)) (Some db) (Some dl)) = 0"
    and "out_len (viterbi_decode (Some llr) (2 * (c + 6)) (Some db) (Some dl)) = Some c"
    unfolding viterbi_decode_def Let_def len using assms len(1)
    by (simp_all add: CONSTRAINT_LENGTH_def)
qed

lemma coded_trial_range:
  assumes c: "1 \<le> c" and cap: "2 * (c + 6) \<le> 2147483647"
  shows "0 \<le> coded_trial lib mod_order snr_db c (2 * (c + 6)) seed"
    and "coded_trial lib mod_order snr_db c (2 * (c + 6)) seed \<le> 1"
    and "\<exists>e. 0 \<le> e \<and> e \<le> c \<and>
           coded_trial lib mod_order snr_db c (2 * (c + 6)) seed = real_of_int e / real_of_int c"
proof -
  let ?orig = "map (bit_draw (mt19937 lib (word_of_int seed))) [0..<nat c]"
  let ?enc = "convolutional_encode (Some (buffer_of ?orig)) c (Some zero_bits) (Some 0)"
  have enc: "status ?enc = 0" "out_len ?enc = Some (2 * (c + 6))"
    using convolutional_encode_ok [OF c cap] by simp_all
  have c0: "0 < c" using c by simp
  have dec: "status (viterbi_decode (Some llr) (2 * (c + 6)) (Some zero_bits) (Some 0)) = 0"
    "out_len (viterbi_decode (Some llr) (2 * (c + 6)) (Some zero_bits) (Some 0)) = Some c" for llr
    using viterbi_decode_ok [OF c0] by simp_all
  obtain rx where u: "coded_trial lib mod_order snr_db c (2 * (c + 6)) seed =
      real_of_int (count_errors (take (nat c) ?orig) rx) / real_of_int c"
    unfolding coded_trial_def Let_def enc dec option.sel using c0 by simp
  let ?e = "count_errors (take (nat c) ?orig) rx"
  have e: "0 \<le> ?e" "?e \<le> c" using count_errors_bounds [of "take (nat c) ?orig" rx] c0 by simp_all
  show "0 \<le> coded_trial lib mod_order snr_db c (2 * (c + 6)) seed" unfolding u using e c0 by simp
  show "coded_trial lib mod_order snr_db c (2 * (c + 6)) seed \<le> 1" unfolding u using e c0 by simp
  show "\<exists>e. 0 \<le> e \<and> e \<le> c \<and>
           coded_trial lib mod_order snr_db c (2 * (c + 6)) seed = real_of_int e / real_of_int c"
    using u e by blast
qed

lemma coded_trial_runs:
  assumes c: "1 \<le> c" and cap: "2 * (c + 6) \<le> 2147483647"
  shows "coded_trial lib mod_order snr_db c (2 * (c + 6)) seed =
     (let gen = mt19937 lib (word_of_int seed);
          orig_bits = map (bit_draw gen) [0..<nat c];
          enc = convolutional_encode (Some (buffer_of orig_bits)) c (Some zero_bits) (Some 0);
          coded_bits = map (the (out_bits enc)) [0..<nat (2 * (c + 6))];
          n0 = 1 / (10 powr (snr_db / 10) * (1 / 2)
                     * (if mod_order = 2 then 1 else if mod_order = 4 then 2 else 4));
          rx = add_noise gen (nat c) (sqrt (n0 / 2)) (coded_symbols mod_order coded_bits);
          llr = coded_llr mod_order (nat (2 * (c + 6))) n0 rx;
          dec = viterbi_decode (Some (llr_buffer llr)) (2 * (c + 6)) (Some zero_bits) (Some 0);
          bit_errors = count_errors orig_bits (map (the (out_bits dec)) [0..<nat c])
      in real_of_int bit_errors / real_of_int c)"
proof -
  let ?orig = "map (bit_draw (mt19937 lib (word_of_int seed))) [0..<nat c]"
  let ?enc = "convolutional_encode (Some (buffer_of ?orig)) c (Some zero_bits) (Some 0)"
  have enc: "status ?enc = 0" "out_len ?enc = Some (2 * (c + 6))"
    using convolutional_encode_ok [OF c cap] by simp_all
  have c0: "0 < c" using c by simp
  have dec: "status (viterbi_decode (Some llr) (2 * (c + 6)) (Some zero_bits) (Some 0)) = 0"
    "out_len (viterbi_decode (Some llr) (2 * (c + 6)) (Some zero_bits) (Some 0)) = Some c" for llr
    using viterbi_decode_ok [OF c0] by simp_all
  show ?thesis
    unfolding coded_trial_def Let_def enc dec option.sel using c0 by simp
qed

lemma compute_ber_coded_cases:
  assumes "mod_order = 2 \<or> mod_order = 4 \<or> mod_order = 16"
  shows "compute_ber_coded lib mod_order snr_db num_bits seed w =
      (if (mod_order = 16 \<and> int32 num_bits smod 2 \<noteq> 0)
            \<and> coded_info_count mod_order (int32 num_bits) \<le> 0
       then (- 0.15, w)
       else if coded_info_count mod_order (int32 num_bits) \<le> 0 then (- 0.1, w)
       else if int32 (2 * int32 (coded_info_count mod_order (int32 num_bits) + 6)) \<le> 0 then (- 0.2, w)
       else if int32 (2 * int32 (coded_info_count mod_order (int32 num_bits) + 6)) > 200000000
       then (- 0.25, w)
       else (coded_trial lib mod_order snr_db (coded_info_count mod_order (int32 num_bits))
               (int32 (2 * int32 (coded_info_count mod_order (int32 num_bits) + 6))) seed, w))"
  using assms by (elim disjE) (simp_all add: compute_ber_coded_def Let_def coded_info_count_def)

lemma compute_ber_coded_runs:
  assumes m: "mod_order = 2 \<or> mod_order = 4 \<or> mod_order = 16"
    and r: "- 2147483648 \<le> num_bits" "num_bits \<le> 2147483647"
    and c: "1 \<le> coded_info_count mod_order num_bits"
    and cap: "2 * (coded_info_count mod_order num_bits + 6) \<le> 200000000"
  shows "compute_ber_coded lib mod_order snr_db num_bits seed w =
           (coded_trial lib mod_order snr_db (coded_info_count mod_order num_bits)
              (2 * (coded_info_count mod_order num_bits + 6)) seed, w)"
proof -
  let ?c = "coded_info_count mod_order num_bits"
  have i0: "int32 num_bits = num_bits" using r by (rule int32_id)
  have i1: "int32 (?c + 6) = ?c + 6" using c cap by (intro int32_id) simp_all
  have i2: "int32 (2 * (?c + 6)) = 2 * (?c + 6)" using c cap by (intro int32_id) simp_all
  show ?thesis unfolding compute_ber_coded_cases [OF m] i0 i1 i2 using c cap by simp
qed

lemma smod2_odd: "(n smod 2 \<noteq> 0) = odd n" for n :: int
proof -
  have "\<bar>n\<bar> mod 2 = n mod 2" by presburger
  then show ?thesis
    by (cases "n = 0") (auto simp: signed_modulo_int_def sgn_if odd_iff_mod_2_eq_one)
qed

lemma coded_info_count_bounds:
  assumes "1 \<le> num_bits" "mod_order = 16 \<longrightarrow> 2 \<le> num_bits"
  shows "1 \<le> coded_info_count mod_order num_bits"
  using assms by (auto simp: coded_info_count_def smod2_odd)

text \<open>
  Claim C10, as amended. With an order in \<open>{2, 4, 16}\<close>, an SNR outside \<open>[-50, 50]\<close> and
  an info-bit count that the driver accepts (at least 1, at least 2 for order 16, representable
  as an \<open>int\<close>, coded length \<open>2 * (L + 6)\<close> within the cap of \<open>2 * 10^8\<close>, where \<open>L\<close> is the
  count made even for order 16), \<open>compute_ber\<close> returns \<open>-1\<close> but \<open>compute_ber_coded\<close> runs
  the coded simulation: it draws \<open>L\<close> info bits from the seeded generator, encodes them (the
  encoder succeeds and reports \<open>2 * (L + 6)\<close>), maps the coded bits to symbols, adds noise of
  the variance that \<open>snr_db\<close> gives, computes the LLRs, decodes them (the decoder succeeds and
  reports \<open>L\<close>), and returns the number of decoded bits that differ from the info bits over
  \<open>L\<close>, a value in \<open>[0, 1]\<close>.
\<close>

theorem coded_driver_ignores_snr_range:
  assumes "mod_order = 2 \<or> mod_order = 4 \<or> mod_order = 16"
    and "snr_db < - 50 \<or> snr_db > 50"
    and "1 \<le> num_bits" and "mod_order = 16 \<longrightarrow> 2 \<le> num_bits" and "num_bits \<le> 2147483647"
    and "2 * (coded_info_count mod_order num_bits + 6) \<le> 200000000"
  shows "fst (compute_ber lib mod_order snr_db num_bits w) = - 1
    \<and> (let L = coded_info_count mod_order num_bits;
            gen = mt19937 lib (word_of_int seed);
            orig_bits = map (bit_draw gen) [0..<nat L];
            enc = convolutional_encode (Some (buffer_of orig_bits)) L (Some zero_bits) (Some 0);
            coded_bits = map (the (out_bits enc)) [0..<nat (2 * (L + 6))];
            n0 = 1 / (10 powr (snr_db / 10) * (1 / 2)
                       * (if mod_order = 2 then 1 else if mod_order = 4 then 2 else 4));
            rx = add_noise gen (nat L) (sqrt (n0 / 2)) (coded_symbols mod_order coded_bits);
            llr = coded_llr mod_order (nat (2 * (L + 6))) n0 rx;
            dec = viterbi_decode (Some (llr_buffer llr)) (2 * (L + 6)) (Some zero_bits) (Some 0);
            bit_errors = count_errors orig_bits (map (the (out_bits dec)) [0..<nat L])
        in status enc = 0 \<and> out_len enc = Some (2 * (L + 6))
           \<and> status dec = 0 \<and> out_len dec = Some L
           \<and> 0 \<le> bit_errors \<and> bit_errors \<le> L
           \<and> compute_ber_coded lib mod_order snr_db num_bits seed w =
                 (real_of_int bit_errors / real_of_int L, w))
    \<and> fst (compute_ber_coded lib mod_order snr_db num_bits seed w) \<noteq> - 1
    \<and> 0 \<le> fst (compute_ber_coded lib mod_order snr_db num_bits seed w)
    \<and> fst (compute_ber_coded lib mod_order snr_db num_bits seed w) \<le> 1"
proof -
  let ?c = "coded_info_count mod_order num_bits"
  let ?orig = "map (bit_draw (mt19937 lib (word_of_int seed))) [0..<nat ?c]"
  let ?enc = "convolutional_encode (Some (buffer_of ?orig)) ?c (Some zero_bits) (Some 0)"
  have c: "1 \<le> ?c" using coded_info_count_bounds [OF assms(3,4)] .
  have c0: "0 < ?c" using c by simp
  have cap: "2 * (?c + 6) \<le> 2147483647" using assms(6) by simp
  have lo: "- 2147483648 \<le> num_bits" using assms(3) by simp
  have r: "compute_ber_coded lib mod_order snr_db num_bits seed w =
         (coded_trial lib mod_order snr_db ?c (2 * (?c + 6)) seed, w)"
    using compute_ber_coded_runs [OF assms(1) lo assms(5) c assms(6)] .
  have enc: "status ?enc = 0" "out_len ?enc = Some (2 * (?c + 6))"
    using convolutional_encode_ok [OF c cap] by simp_all
  have dec: "status (viterbi_decode (Some llr) (2 * (?c + 6)) (Some zero_bits) (Some 0)) = 0"
    "out_len (viterbi_decode (Some llr) (2 * (?c + 6)) (Some zero_bits) (Some 0)) = Some ?c" for llr
    using viterbi_decode_ok [OF c0] by simp_all
  have e: "0 \<le> count_errors ?orig rx" "count_errors ?orig rx \<le> ?c" for rx
    using count_errors_bounds [of ?orig rx] c0 by simp_all
  have lo: "0 \<le> coded_trial lib mod_order snr_db ?c (2 * (?c + 6)) seed"
    and hi: "coded_trial lib mod_order snr_db ?c (2 * (?c + 6)) seed \<le> 1"
    using coded_trial_range [OF c cap] by blast+
  have u: "fst (compute_ber lib mod_order snr_db num_bits w) = - 1"
    using assms(2) by (auto simp: compute_ber_def)
  have run: "(let L = ?c;
            gen = mt19937 lib (word_of_int seed);
            orig_bits = map (bit_draw gen) [0..<nat L];
            enc = convolutional_encode (Some (buffer_of orig_bits)) L (Some zero_bits) (Some 0);
            coded_bits = map (the (out_bits enc)) [0..<nat (2 * (L + 6))];
            n0 = 1 / (10 powr (snr_db / 10) * (1 / 2)
                       * (if mod_order = 2 then 1 else if mod_order = 4 then 2 else 4));
            rx = add_noise gen (nat L) (sqrt (n0 / 2)) (coded_symbols mod_order coded_bits);
            llr = coded_llr mod_order (nat (2 * (L + 6))) n0 rx;
            dec = viterbi_decode (Some (llr_buffer llr)) (2 * (L + 6)) (Some zero_bits) (Some 0);
            bit_errors = count_errors orig_bits (map (the (out_bits dec)) [0..<nat L])
        in status enc = 0 \<and> out_len enc = Some (2 * (L + 6))
           \<and> status dec = 0 \<and> out_len dec = Some L
           \<and> 0 \<le> bit_errors \<and> bit_errors \<le> L
           \<and> compute_ber_coded lib mod_order snr_db num_bits seed w =
                 (real_of_int bit_errors / real_of_int L, w))"
    unfolding Let_def r coded_trial_runs [OF c cap, unfolded Let_def]
    using enc dec e by simp
  show ?thesis unfolding r fst_conv using u lo hi run unfolding r by auto
qed

theorem coded_driver_ignores_snr_range_witness:
  "fst (compute_ber null_lib 2 60 10 null_world) = - 1
   \<and> 0 \<le> fst (compute_ber_coded null_lib 2 60 10 0 null_world)
   \<and> fst (compute_ber_coded null_lib 2 60 10 0 null_world) \<le> 1
   \<and> 0 \<le> fst (compute_ber_coded null_lib 16 (- 60) 3 0 null_world)
   \<and> fst (compute_ber_coded null_lib 16 (- 60) 3 0 null_world) \<le> 1"
proof -
  have c: "coded_info_count 2 10 = 10" "coded_info_count 16 3 = 2"
    by (simp_all add: coded_info_count_def signed_modulo_int_def)
  have a: "2 * (coded_info_count 2 10 + 6) \<le> (200000000::int)"
    "2 * (coded_info_count 16 3 + 6) \<le> (200000000::int)"
    unfolding c by simp_all
  from coded_driver_ignores_snr_range [of 2 60 10 null_lib null_world 0, OF _ _ _ _ _ a(1)]
  have "fst (compute_ber null_lib 2 60 10 null_world) = - 1
     \<and> 0 \<le> fst (compute_ber_coded null_lib 2 60 10 0 null_world)
     \<and> fst (compute_ber_coded null_lib 2 60 10 0 null_world) \<le> 1"
    by simp
  moreover
  from coded_driver_ignores_snr_range [of 16 "- 60" 3 null_lib null_world 0, OF _ _ _ _ _ a(2)]
  have "0 \<le> fst (compute_ber_coded null_lib 16 (- 60) 3 0 null_world)
     \<and> fst (compute_ber_coded null_lib 16 (- 60) 3 0 null_world) \<le> 1"
    by simp
  ultimately show ?thesis by simp
qed

text \<open>
  Claim C10 as stated fails for counts beyond the cap: with order 2 and \<open>snr_db = 60\<close>, the
  count \<open>10^8\<close> is at least 1, but the coded length \<open>2 * (10^8 + 6)\<close> exceeds \<open>2 * 10^8\<close> and
  the driver returns the sentinel \<open>-0.25\<close>, which is not in \<open>[0, 1]\<close>, and runs nothing.
\<close>

theorem coded_driver_snr_beyond_cap:
  "compute_ber_coded null_lib 2 60 100000000 0 null_world = (- 0.25, null_world)
   \<and> \<not> 0 \<le> fst (compute_ber_coded null_lib 2 60 100000000 0 null_world)"
proof -
  have i: "int32 100000000 = 100000000" "int32 100000006 = 100000006" "int32 200000012 = 200000012"
    by (simp_all add: int32_id)
  have "compute_ber_coded null_lib 2 60 100000000 0 null_world = (- 0.25, null_world)"
    by (simp add: compute_ber_coded_cases coded_info_count_def i)
  then show ?thesis by simp
qed

text \<open>
  Claim C4, as amended. For a bit count within the range of \<open>int\<close>, with \<open>L\<close> the count less
  one when the order is 16 and the count is odd: if the coded length \<open>2 * (L + 6)\<close> exceeds
  \<open>2 * 10^8\<close> (and is itself an \<open>int\<close>), the driver returns the sentinel \<open>-0.25\<close> and runs
  nothing.
\<close>

theorem coded_driver_length_cap:
  assumes "mod_order = 2 \<or> mod_order = 4 \<or> mod_order = 16"
    and "- 2147483648 \<le> num_bits" and "num_bits \<le> 2147483647"
    and "200000000 < 2 * (coded_info_count mod_order num_bits + 6)"
    and "2 * (coded_info_count mod_order num_bits + 6) \<le> 2147483647"
  shows "compute_ber_coded lib mod_order snr_db num_bits seed w = (- 0.25, w)"
proof -
  let ?c = "coded_info_count mod_order num_bits"
  have c: "0 < ?c" using assms(4) by simp
  have i0: "int32 num_bits = num_bits" using assms(2,3) by (rule int32_id)
  have i1: "int32 (?c + 6) = ?c + 6" using c assms(5) by (intro int32_id) simp_all
  have i2: "int32 (2 * (?c + 6)) = 2 * (?c + 6)" using c assms(5) by (intro int32_id) simp_all
  show ?thesis unfolding compute_ber_coded_cases [OF assms(1)] i0 i1 i2 using c assms(4) by simp
qed

theorem coded_driver_length_cap_witness:
  "compute_ber_coded null_lib 2 0 99999995 0 null_world = (- 0.25, null_world)
   \<and> compute_ber_coded null_lib 16 0 99999997 0 null_world = (- 0.25, null_world)"
  using coded_driver_length_cap [of 2 99999995 null_lib 0 0 null_world]
    coded_driver_length_cap [of 16 99999997 null_lib 0 0 null_world]
  by (simp add: coded_info_count_def signed_modulo_int_def)

text \<open>
  Claim C4 as stated fails at the cap: at order 16 the odd count \<open>99999995\<close> has
  \<open>2 * (99999995 + 6) > 2 * 10^8\<close>, but the driver first makes it even, the coded length is
  exactly \<open>2 * 10^8\<close>, and the simulation runs.
\<close>

theorem coded_driver_cap_after_adjustment:
  "0 \<le> fst (compute_ber_coded null_lib 16 0 99999995 0 null_world)"
proof -
  have c: "coded_info_count 16 99999995 = 99999994"
    by (simp add: coded_info_count_def signed_modulo_int_def)
  have "compute_ber_coded null_lib 16 0 99999995 0 null_world =
      (coded_trial null_lib 16 0 99999994 (2 * (99999994 + 6)) 0, null_world)"
    using compute_ber_coded_runs [of 16 99999995 null_lib 0 0 null_world] by (simp add: c)
  moreover have "0 \<le> coded_trial null_lib 16 0 99999994 (2 * (99999994 + 6)) 0"
    by (rule coded_trial_range(1)) simp_all
  ultimately show ?thesis by simp
qed

text \<open>
  The narrowing cast \<open>static_cast<int>(num_bits)\<close> comes before every check of the coded
  driver: counts that differ by \<open>2^32\<close> are treated alike, so \<open>2^32 + 10\<close> is simulated as 10.
\<close>

lemma compute_ber_coded_narrows:
  assumes "mod_order = 2 \<or> mod_order = 4 \<or> mod_order = 16"
  shows "compute_ber_coded lib mod_order snr_db (num_bits + 4294967296) seed w =
         compute_ber_coded lib mod_order snr_db num_bits seed w"
proof -
  have e1: "int32 (num_bits + 4294967296) = int32 num_bits"
    unfolding int32_def by (rule signed_take_bit_eq_iff_take_bit_eq [THEN iffD2]) (simp add: take_bit_eq_mod)
  show ?thesis by (simp only: compute_ber_coded_cases [OF assms] e1)
qed

lemma compute_ber_coded_beyond_int:
  "0 \<le> fst (compute_ber_coded null_lib 2 0 4294967306 0 null_world)"
proof -
  have "compute_ber_coded null_lib 2 0 (10 + 4294967296) 0 null_world =
        compute_ber_coded null_lib 2 0 10 0 null_world"
    by (rule compute_ber_coded_narrows) simp
  moreover have "compute_ber_coded null_lib 2 0 10 0 null_world =
      (coded_trial null_lib 2 0 10 (2 * (10 + 6)) 0, null_world)"
    using compute_ber_coded_runs [of 2 10 null_lib 0 0 null_world] by (simp add: coded_info_count_def)
  moreover have "0 \<le> coded_trial null_lib 2 0 10 (2 * (10 + 6)) 0"
    by (rule coded_trial_range(1)) simp_all
  ultimately show ?thesis by simp
qed

section \<open>LLR generator for 16-QAM\<close>

lemma lse2_spec: "lse2 a b = spec_lse2 a b"
proof (cases "a \<le> b")
  case True
  then show ?thesis by (simp add: lse2_def spec_lse2_def Let_def max_def add.commute)
next
  case False
  then show ?thesis by (simp add: lse2_def spec_lse2_def Let_def max_def)
qed

lemma fill_llrs_spec: "fill_llrs N0 x = (spec_llr_msb N0 x, spec_llr_lsb N0 x)"
proof -
  have u: "[0..<4] = [0, 1, 2, 3]" by (simp add: upt_rec)
  show ?thesis
    unfolding fill_llrs_def Let_def u
    by (simp add: lse2_spec spec_llr_msb_def spec_llr_lsb_def spec_metric_def spec_pam_levels_def
        llr_levels_def power2_eq_square)
qed

lemma concat_quads_nth:
  assumes "\<And>x. length (f x) = 4" and "j < length xs" and "k < 4"
  shows "concat (map f xs) ! (4 * j + k) = f (xs ! j) ! k"
  using assms(2)
proof (induction xs arbitrary: j)
  case Nil
  then show ?case by simp
next
  case (Cons x xs)
  show ?case
  proof (cases j)
    case 0
    then show ?thesis using assms(1,3) by (simp add: nth_append)
  next
    case (Suc i)
    then have "i < length xs" using Cons.prems by simp
    from Cons.IH [OF this] Suc assms(1) [of x] show ?thesis by (simp add: nth_append)
  qed
qed

lemma length_concat_quads:
  assumes "\<And>x. length (f x) = 4"
  shows "length (concat (map f xs)) = 4 * length xs"
  using assms by (induction xs) simp_all

lemma llr16_of_symbol_spec:
  "llr16_of_symbol N0 z =
     [spec_llr_msb N0 (Re z / scale_16qam), spec_llr_msb N0 (Im z / scale_16qam),
      spec_llr_lsb N0 (Re z / scale_16qam), spec_llr_lsb N0 (Im z / scale_16qam)]"
  by (simp add: llr16_of_symbol_def Let_def fill_llrs_spec)

lemma coded_llr_16_nth:
  assumes "j < length rx" and "k < 4"
  shows "coded_llr 16 coded_len N0 rx ! (4 * j + k) = llr16_of_symbol N0 (rx ! j) ! k"
proof -
  have l4: "length (llr16_of_symbol N0 x) = 4" for x by (simp add: llr16_of_symbol_spec)
  have "4 * j + k < length (concat (map (llr16_of_symbol N0) rx))"
    using assms by (simp add: length_concat_quads [of "llr16_of_symbol N0", OF l4])
  then have "coded_llr 16 coded_len N0 rx ! (4 * j + k) = concat (map (llr16_of_symbol N0) rx) ! (4 * j + k)"
    by (simp add: coded_llr_def store_llrs_def nth_append)
  also have "\<dots> = llr16_of_symbol N0 (rx ! j) ! k"
    using l4 assms by (rule concat_quads_nth)
  finally show ?thesis .
qed

lemma denormalise_factor: "\<bar>1 / scale_16qam - sqrt 10\<bar> < 1 / 10 ^ 15"
proof -
  let ?r = "1 / scale_16qam :: real"
  have lo: "?r - 1 / 10 ^ 15 < sqrt 10"
  proof (rule real_less_rsqrt)
    show "(?r - 1 / 10 ^ 15)\<^sup>2 < 10"
      by (simp add: scale_16qam_def M_SQRT10_INV_def power2_eq_square)
  qed
  have hi: "sqrt 10 < ?r + 1 / 10 ^ 15"
  proof (rule real_less_lsqrt)
    show "10 < (?r + 1 / 10 ^ 15)\<^sup>2"
      by (simp add: scale_16qam_def M_SQRT10_INV_def power2_eq_square)
    show "0 \<le> ?r + 1 / 10 ^ 15"
      by (simp add: scale_16qam_def M_SQRT10_INV_def)
  qed
  from lo hi show ?thesis by linarith
qed

lemma get_level_index:
  "get_level msb lsb = spec_pam_levels ! (2 * (if msb then 1 else 0) + (if lsb then 1 else 0))"
  by (cases msb; cases lsb) (simp_all add: get_level_simps spec_pam_levels_def)

text \<open>
  Claim C5. On the 16-QAM coded path the LLRs of the \<open>j\<close>-th received symbol are, in this
  order, the msb-LLR of the I axis, the msb-LLR of the Q axis, the lsb-LLR of the I axis and
  the lsb-LLR of the Q axis, each computed as the spec says from the axis value divided by
  \<open>scale_16qam\<close> (a factor within \<open>10^-15\<close> of \<open>\<surd>10\<close>), with the metrics over the levels
  \<open>[3, 1, -3, -1]\<close> indexed by \<open>2 * msb + lsb\<close> as \<open>get_level\<close> is. The modulator of the coded
  path builds the \<open>j\<close>-th symbol from the coded bits \<open>4j .. 4j + 3\<close> with (msb, lsb) =
  (bit \<open>4j\<close>, bit \<open>4j + 2\<close>) on I and (bit \<open>4j + 1\<close>, bit \<open>4j + 3\<close>) on Q: position for
  position the same order.
\<close>

theorem qam16_llr_order:
  assumes "j < length rx" and "j < length coded_bits div 4"
  shows "coded_llr 16 coded_len N0 rx ! (4 * j) = spec_llr_msb N0 (Re (rx ! j) / scale_16qam)
    \<and> coded_llr 16 coded_len N0 rx ! (4 * j + 1) = spec_llr_msb N0 (Im (rx ! j) / scale_16qam)
    \<and> coded_llr 16 coded_len N0 rx ! (4 * j + 2) = spec_llr_lsb N0 (Re (rx ! j) / scale_16qam)
    \<and> coded_llr 16 coded_len N0 rx ! (4 * j + 3) = spec_llr_lsb N0 (Im (rx ! j) / scale_16qam)
    \<and> \<bar>1 / scale_16qam - sqrt 10\<bar> < 1 / 10 ^ 15
    \<and> Re (coded_symbols 16 coded_bits ! j) =
         get_level (coded_bits ! (4 * j)) (coded_bits ! (4 * j + 2)) * scale_16qam
    \<and> Im (coded_symbols 16 coded_bits ! j) =
         get_level (coded_bits ! (4 * j + 1)) (coded_bits ! (4 * j + 3)) * scale_16qam
    \<and> (\<forall>msb lsb. get_level msb lsb =
          spec_pam_levels ! (2 * (if msb then 1 else 0) + (if lsb then 1 else 0)))"
proof -
  have q: "coded_llr 16 coded_len N0 rx ! (4 * j + k) = llr16_of_symbol N0 (rx ! j) ! k" if "k < 4" for k
    using assms(1) that by (rule coded_llr_16_nth)
  have s: "coded_symbols 16 coded_bits ! j =
      Complex (get_level (coded_bits ! (4 * j)) (coded_bits ! (4 * j + 2)) * scale_16qam)
              (get_level (coded_bits ! (4 * j + 1)) (coded_bits ! (4 * j + 3)) * scale_16qam)"
    using assms(2) by (simp add: coded_symbols_def Let_def)
  show ?thesis
    using q [of 0] q [of 1] q [of 2] q [of 3] denormalise_factor get_level_index
    by (simp add: llr16_of_symbol_spec s)
qed

theorem qam16_llr_order_witness:
  "coded_llr 16 4 1 test_symbols ! (4 * 0) = spec_llr_msb 1 (1 / scale_16qam)
   \<and> coded_llr 16 4 1 test_symbols ! (4 * 0 + 1) = spec_llr_msb 1 0
   \<and> coded_llr 16 4 1 test_symbols ! (4 * 0 + 2) = spec_llr_lsb 1 (1 / scale_16qam)
   \<and> coded_llr 16 4 1 test_symbols ! (4 * 0 + 3) = spec_llr_lsb 1 0
   \<and> Re (coded_symbols 16 [False, True, True, False] ! 0) = get_level False True * scale_16qam
   \<and> Im (coded_symbols 16 [False, True, True, False] ! 0) = get_level True False * scale_16qam"
  using qam16_llr_order [of 0 test_symbols "[False, True, True, False]" 4 1]
  by (simp add: test_symbols_def)

section \<open>The unseeded driver reads entropy\<close>

lemma modulate_single: "modulate [b] 2 = [if b then Complex (- 1) 0 else Complex 1 0]"
  using modulate_2 [of "[b]"] by (simp add: list_eq_iff_nth_eq)

lemma demodulate_single: "demodulate [z] 2 = [Re z < 0]"
  using demodulate_2 [of "[z]"] by (simp add: list_eq_iff_nth_eq)

lemma compute_ber_reads_entropy:
  "fst (compute_ber seed_lib 2 0 1 null_world) = 0"
  "fst (compute_ber seed_lib 2 0 1 other_world) = 1"
  by (simp_all add: compute_ber_def adjust_num_bits_def signed_modulo_int_def Let_def random_device_def
      null_world_def other_world_def seed_lib_def seed_prng_def uncoded_trial_def add_noise_def
      modulate_single demodulate_single count_errors_def split: prod.splits)

end
